theory Spec2Isabelle
  imports Main "HOL-Library.Numeral_Type"
begin

section \<open>Scalars, buffers and errors\<close>

text \<open>
  The scalar field \<open>Fr\<close> is an object handed to every polynomial (\<open>this.Fr\<close>) and to the
  prover (\<open>curve.Fr\<close>). Its operations \<open>add\<close>, \<open>sub\<close>, \<open>neg\<close>, \<open>mul\<close>, \<open>eq\<close>, \<open>zero\<close>
  and \<open>one\<close> are the ring operations of the element type \<open>'a\<close>; where the code inverts
  (\<open>batchInverse\<close>) the element type is a field. A coefficient buffer holds \<open>n8\<close> bytes per
  element, and the code addresses element \<open>i\<close> as the bytes from \<open>i * n8\<close> to
  \<open>(i + 1) * n8\<close>: the model keeps the list of elements. A fresh \<open>BigBuffer\<close> is all zero.

  The scalar field of BN254, the first of the two curves \<open>getCurveFromQ\<close> accepts, is used
  wherever the code is run on concrete numbers.
\<close>

type_synonym bn254_Fr =
  "21888242871839275222246405745257275088548364400416034343698204186575808495617"

text \<open>
  Every \<open>throw\<close> of the source is a constructor. \<open>BufferBounds\<close> stands for an access
  outside a buffer: a \<open>set\<close> at a negative offset or past the end raises in the buffer
  class, and a \<open>slice\<close> past the end yields an empty array on which the field operations
  are not defined. \<open>UndefinedOperand\<close> stands for an operand that is \<open>undefined\<close>, such as
  an element of the blinding factors past their end. \<open>UndefinedProperty\<close> is the
  \<open>TypeError\<close> of reading a property of \<open>undefined\<close>.

  \<open>NoFieldLibrary\<close> is what \<open>get length()\<close> raises on a polynomial whose \<open>Fr\<close> is not the
  field library. The getter divides \<open>this.coeff.byteLength\<close> by \<open>this.Fr.n8\<close>: with
  \<open>this.Fr\<close> undefined that is a \<open>TypeError\<close>; with a logger in its place the quotient is
  \<open>NaN\<close>, which differs from its own floor, and the getter throws
  \<open>Polynomial coefficients buffer has incorrect size\<close>.
\<close>

datatype error =
    AddGreaterSize
  | SplitParts
  | BlindingFactorsLength
  | CopyConstraints
  | BufferBounds
  | UndefinedOperand
  | UndefinedProperty
  | NoFieldLibrary

text \<open>
  Sequencing: the first error ends the computation, as a \<open>throw\<close> does. For a loop whose
  body may raise, \<open>forE\<close> collects the results of the passes and \<open>foldE\<close> threads the
  state through them.
\<close>

definition thenE :: "error + 'a \<Rightarrow> ('a \<Rightarrow> error + 'b) \<Rightarrow> error + 'b" where
  "thenE r f = (case r of Inl e \<Rightarrow> Inl e | Inr x \<Rightarrow> f x)"

fun forE :: "(nat \<Rightarrow> error + 'a) \<Rightarrow> nat list \<Rightarrow> error + 'a list" where
  "forE f [] = Inr []"
| "forE f (i # is) = thenE (f i) (\<lambda>x. thenE (forE f is) (\<lambda>xs. Inr (x # xs)))"

fun foldE :: "(nat \<Rightarrow> 's \<Rightarrow> error + 's) \<Rightarrow> nat list \<Rightarrow> 's \<Rightarrow> error + 's" where
  "foldE f [] s = Inr s"
| "foldE f (i # is) s = thenE (f i s) (foldE f is)"

text \<open>
  \<open>buffer.slice(from, to)\<close> is cut to the bounds of the buffer; \<open>buffer.set(source, offset)\<close>
  raises when the source does not fit.
\<close>

definition slice :: "'a list \<Rightarrow> nat \<Rightarrow> nat \<Rightarrow> 'a list" where
  "slice buf from to = take (to - from) (drop from buf)"

definition set_buf :: "'a list \<Rightarrow> 'a list \<Rightarrow> nat \<Rightarrow> error + 'a list" where
  "set_buf buf source offset =
     (if offset + length source \<le> length buf
      then Inr (take offset buf @ source @ drop (offset + length source) buf)
      else Inl BufferBounds)"

section \<open>The class Polynomial\<close>

text \<open>
  The constructor is \<open>constructor(coefficients, domainSize, Fr, logger)\<close>. The record is a
  polynomial whose \<open>Fr\<close> is the field library, the object the methods are written for;
  \<open>domainSize\<close> is \<open>None\<close> when the constructor was given none.
\<close>

record 'a Polynomial =
  coeff :: "'a list"
  domainSize :: "nat option"

text \<open>
  Every call of the constructor in \<open>fromBuffer\<close>, in \<open>split\<close> and in the prover hands it
  three arguments, \<open>new Polynomial(buffer, Fr, logger)\<close>: the object built holds the field
  library as its \<open>domainSize\<close> and the logger as its \<open>Fr\<close>. That object is
  \<open>Shifted buffer\<close>; the buffer is its field \<open>coeff\<close>. \<open>divZh\<close> returns its buffer through
  the call \<open>new Polynomial(coefs, this.Fr)\<close>; its result is kept below as the record of that
  buffer, without a domain size.
\<close>

datatype 'a object = Constructed "'a Polynomial" | Shifted "'a list"

text \<open>The header of the proving key, as far as the prover reads it.\<close>

record 'a zkey =
  nVars :: nat
  nAdditions :: nat
  nConstraints :: nat
  nPublic :: nat
  domainSize_zkey :: nat
  power_zkey :: nat
  k1 :: 'a

text \<open>
  What round 2 leaves behind: the buffer \<open>buffers.Z\<close>, the blinded polynomial
  \<open>polynomials.Z\<close>, its extended evaluations and the commitment stored in the proof under
  the key \<open>Z\<close>.
\<close>

record ('a, 'e, 'g) round2_result =
  buffers_Z :: "'a list"
  polynomials_Z :: "'a object"
  evaluations_Z :: 'e
  proof_Z :: 'g

text \<open>
  Modelled from the spec: the class \<open>Proof\<close> (\<open>proof.js\<close> is not among the sources). The
  specification describes it as a map of named group commitments and named scalar
  evaluations that accumulates across the rounds and is returned on success. The maps
  keep their keys in the order of insertion, as the properties of an object do.
\<close>

record ('a, 'g) Proof =
  polynomials :: "(string \<times> 'g) list"
  evaluations :: "(string \<times> 'a) list"


text \<open>\<open>get length()\<close>: the number of coefficients held by the buffer.\<close>

definition length_pol :: "'a Polynomial \<Rightarrow> nat" where
  "length_pol p = length (coeff p)"

text \<open>
  \<open>degree()\<close> scans from index \<open>length - 1\<close> down to index 1 and returns the first index
  with a non-zero coefficient, 0 when there is none (also for the empty buffer).
\<close>

fun degree_loop :: "('a::zero) list \<Rightarrow> nat \<Rightarrow> nat" where
  "degree_loop cs 0 = 0"
| "degree_loop cs (Suc i) = (if cs ! Suc i \<noteq> 0 then Suc i else degree_loop cs i)"

definition degree :: "('a::zero) Polynomial \<Rightarrow> nat" where
  "degree p = degree_loop (coeff p) (length_pol p - 1)"

text \<open>
  \<open>evaluate(point)\<close>: Horner's rule, with \<open>i\<close> running from \<open>length\<close> down to 1 and
  reading coefficient \<open>i - 1\<close>.
\<close>

fun evaluate_loop :: "('a::comm_ring_1) list \<Rightarrow> 'a \<Rightarrow> nat \<Rightarrow> 'a \<Rightarrow> 'a" where
  "evaluate_loop cs point 0 res = res"
| "evaluate_loop cs point (Suc i) res = evaluate_loop cs point i (cs ! i + res * point)"

definition evaluate :: "('a::comm_ring_1) Polynomial \<Rightarrow> 'a \<Rightarrow> 'a" where
  "evaluate p point = evaluate_loop (coeff p) point (length_pol p) 0"

text \<open>
  \<open>divByXValue(value)\<close>. The new buffer \<open>coefs\<close> has the length of the old one. Zero is
  stored at \<open>length - 1\<close>, the top coefficient at \<open>length - 2\<close>, and \<open>i\<close> runs from
  \<open>length - 3\<close> down to 0 storing \<open>coeff[i + 1] + value * coefs[i + 1]\<close>. With fewer than
  two coefficients one of the first two stores is at a negative offset. The comparison of
  \<open>coeff[0]\<close> with \<open>- value * coefs[0]\<close> that follows the loop guards an empty block (its
  \<open>throw\<close> is commented out), so it has no effect.
\<close>

fun divByXValue_loop :: "('a::comm_ring_1) \<Rightarrow> 'a list \<Rightarrow> nat \<Rightarrow> 'a list \<Rightarrow> 'a list" where
  "divByXValue_loop v cs 0 coefs = coefs"
| "divByXValue_loop v cs (Suc i) coefs =
     divByXValue_loop v cs i (coefs[i := cs ! Suc i + v * coefs ! Suc i])"

definition divByXValue :: "('a::comm_ring_1) \<Rightarrow> 'a Polynomial \<Rightarrow> error + 'a Polynomial" where
  "divByXValue v p =
     (let len = length_pol p in
      if len < 2 then Inl BufferBounds
      else
        let coefs0 = replicate len 0;
            coefs1 = coefs0[len - 1 := 0];
            coefs2 = coefs1[len - 2 := coeff p ! (len - 1)];
            coefs3 = divByXValue_loop v (coeff p) (len - 2) coefs2
        in Inr (p\<lparr>coeff := coefs3\<rparr>))"

section \<open>Polynomials as the specification writes them\<close>

text \<open>
  The value of a coefficient list at a point, by structural recursion, and the coefficient
  list of \<open>(X - z) * g(X)\<close>: \<open>X * g\<close> is \<open>g\<close> shifted up by one place, \<open>z * g\<close> is \<open>g\<close>
  scaled, and both are brought to length \<open>length g + 1\<close>.
\<close>

fun horner :: "('a::comm_ring_1) \<Rightarrow> 'a list \<Rightarrow> 'a" where
  "horner x [] = 0"
| "horner x (c # cs) = c + horner x cs * x"

definition times_X_minus :: "('a::comm_ring_1) \<Rightarrow> 'a list \<Rightarrow> 'a list" where
  "times_X_minus z g = map2 (\<lambda>a b. a - z * b) (0 # g) (g @ [0])"

text \<open>
  The buffer \<open>coefs\<close> that \<open>divByXValue\<close> leaves in \<open>this.coeff\<close>, for a buffer \<open>cs\<close> of
  at least two coefficients.
\<close>

definition quotient_buffer :: "('a::comm_ring_1) \<Rightarrow> 'a list \<Rightarrow> 'a list" where
  "quotient_buffer v cs =
     divByXValue_loop v cs (length cs - 2)
       ((replicate (length cs) 0)[length cs - 1 := 0, length cs - 2 := cs ! (length cs - 1)])"

text \<open>
  \<open>blindCoefficients(blindingFactors)\<close>: the new buffer has \<open>length + blindingFactors.length\<close>
  elements and starts as a copy of the old one; step \<open>i\<close> of the loop adds
  \<open>blindingFactors[i]\<close> at \<open>length + i\<close>, then subtracts it at \<open>i\<close>.
\<close>

definition blind_step :: "nat \<Rightarrow> ('a::comm_ring_1) list \<Rightarrow> nat \<Rightarrow> 'a list \<Rightarrow> 'a list" where
  "blind_step len blindingFactors i blinded =
     (let blinded1 = blinded[len + i := blinded ! (len + i) + blindingFactors ! i]
      in blinded1[i := blinded1 ! i - blindingFactors ! i])"

definition blindCoefficients :: "('a::comm_ring_1) list \<Rightarrow> 'a Polynomial \<Rightarrow> 'a Polynomial" where
  "blindCoefficients blindingFactors p =
     (let len = length_pol p;
          blinded0 = coeff p @ replicate (length blindingFactors) 0
      in p\<lparr>coeff := fold (blind_step len blindingFactors) [0..<length blindingFactors] blinded0\<rparr>)"

text \<open>
  \<open>divZh()\<close>: a new buffer of \<open>4 * domainSize\<close> elements; the first loop stores
  \<open>- coeff[i]\<close> for \<open>i < domainSize\<close>, the second \<open>coefs[i - domainSize] - coeff[i]\<close> for the
  other indices. The test on \<open>a\<close> inside the second loop guards an empty block. The buffer
  is returned in a new polynomial. The loops read \<open>4 * domainSize\<close> coefficients of
  \<open>this\<close>; a polynomial without a domain size has no buffer to allocate.
\<close>

definition divZh :: "('a::comm_ring_1) Polynomial \<Rightarrow> error + 'a Polynomial" where
  "divZh p =
     (case domainSize p of
        None \<Rightarrow> Inl UndefinedOperand
      | Some n \<Rightarrow>
          if length_pol p < 4 * n then Inl BufferBounds
          else
            let coefs0 = replicate (4 * n) 0;
                coefs1 = fold (\<lambda>i coefs. coefs[i := - coeff p ! i]) [0..<n] coefs0;
                coefs2 = fold (\<lambda>i coefs. coefs[i := coefs ! (i - n) - coeff p ! i])
                           [n..<4 * n] coefs1
            in Inr \<lparr>coeff = coefs2, domainSize = None\<rparr>)"

text \<open>\<open>truncate()\<close> keeps the coefficients up to \<open>degree()\<close>.\<close>

definition truncate :: "('a::zero) Polynomial \<Rightarrow> 'a Polynomial" where
  "truncate p =
     (let deg = degree p in
      if deg + 1 < length_pol p then p\<lparr>coeff := take (deg + 1) (coeff p)\<rparr> else p)"

text \<open>
  \<open>new Polynomial(buffer, Fr, logger)\<close>, and a method called on an object. Each of the
  methods that change a polynomial (\<open>blindCoefficients\<close>, \<open>add\<close>, \<open>sub\<close>, \<open>mulScalar\<close>,
  \<open>addScalar\<close>, \<open>subScalar\<close>, \<open>divByXValue\<close>, \<open>truncate\<close>) reads \<open>this.length\<close> before it
  writes anything, so on a shifted object the call raises and leaves the object as it was.
\<close>

definition new_Polynomial :: "'a list \<Rightarrow> 'a object" where
  "new_Polynomial coefficients = Shifted coefficients"

definition call :: "('a Polynomial \<Rightarrow> error + 'a Polynomial) \<Rightarrow> 'a object \<Rightarrow> error + 'a object" where
  "call method this =
     (case this of
        Constructed p \<Rightarrow> thenE (method p) (\<lambda>p. Inr (Constructed p))
      | Shifted buffer \<Rightarrow> Inl NoFieldLibrary)"

text \<open>
  \<open>split(numPols, degPols, blindingFactors)\<close>. Sizes are counted in elements here, in bytes
  in the source: \<open>chunk\<close> is \<open>chunkByteLength / n8 = degPols + 1\<close>, and \<open>numRealPols\<close> is the
  ceiling of \<open>(degree() + 1) / chunk\<close>. One pass of the second loop builds \<open>res[i]\<close> by
  \<open>new Polynomial(new BigBuffer(byteLength), this.Fr, this.logger)\<close> and writes its buffer
  through \<open>res[i].coeff\<close>: a buffer of \<open>chunk + 1\<close> elements (of the remaining elements for
  the last part) that receives the slice of \<open>this.coeff\<close>, then \<open>blindingFactors[i]\<close> at
  position \<open>chunk\<close> unless it is the last part, then loses \<open>blindingFactors[i - 1]\<close> at
  position 0 unless it is the first part. On the last part the pass ends with
  \<open>res[i].truncate()\<close>. The first loop fills the places from \<open>numRealPols\<close> on with
  polynomials of one zero coefficient, built by the same call.
\<close>

definition split_part ::
  "('a::comm_ring_1) Polynomial \<Rightarrow> nat \<Rightarrow> nat \<Rightarrow> 'a list \<Rightarrow> nat \<Rightarrow> error + 'a object" where
  "split_part p numPols chunk blindingFactors i =
     (let isLast = (numPols - 1 = i);
          len = (if isLast then length_pol p - (numPols - 1) * chunk else chunk + 1);
          fr = i * chunk;
          to = (if isLast then length_pol p else (i + 1) * chunk)
      in
      thenE (set_buf (replicate len 0) (slice (coeff p) fr to) 0) (\<lambda>c1.
      thenE (if \<not> isLast
             then (if i < length blindingFactors
                   then set_buf c1 [blindingFactors ! i] chunk
                   else Inl UndefinedOperand)
             else Inr c1) (\<lambda>c2.
      thenE (if 0 \<noteq> i
             then (if i - 1 < length blindingFactors
                   then (if c2 = [] then Inl BufferBounds
                         else set_buf c2 [c2 ! 0 - blindingFactors ! (i - 1)] 0)
                   else Inl UndefinedOperand)
             else Inr c2) (\<lambda>c3.
      let r = new_Polynomial c3
      in if isLast then call (\<lambda>q. Inr (truncate q)) r else Inr r))))"

definition split ::
  "nat \<Rightarrow> nat \<Rightarrow> ('a::comm_ring_1) list \<Rightarrow> 'a Polynomial \<Rightarrow> error + 'a object list" where
  "split numPols degPols blindingFactors p =
     (if numPols < 1 then Inl SplitParts
      else if 1 = numPols then Inr [Constructed p]
      else if 0 \<noteq> length blindingFactors \<and> length blindingFactors < numPols - 1
        then Inl BlindingFactorsLength
      else
        let chunk = degPols + 1;
            numRealPols = (degree p + 1 + chunk - 1) div chunk;
            zeros = replicate (numPols - numRealPols) (new_Polynomial [0]);
            numPols' = min numPols numRealPols
        in thenE (forE (split_part p numPols' chunk blindingFactors) [0..<numPols'])
             (\<lambda>parts. Inr (parts @ zeros)))"

text \<open>
  The coefficient list of \<open>(X^n - 1) * h(X)\<close>: \<open>X^n * h\<close> is \<open>h\<close> shifted up by \<open>n\<close>
  places, and both operands are brought to length \<open>n + length h\<close>.
\<close>

definition times_Zh :: "nat \<Rightarrow> ('a::comm_ring_1) list \<Rightarrow> 'a list" where
  "times_Zh n h = map2 (\<lambda>a b. a - b) (replicate n 0 @ h) (h @ replicate n 0)"

text \<open>The buffer \<open>coefs\<close> at the end of \<open>divZh\<close>, for domain size \<open>n\<close>.\<close>

definition divZh_buffer :: "nat \<Rightarrow> ('a::comm_ring_1) list \<Rightarrow> 'a list" where
  "divZh_buffer n cs =
     fold (\<lambda>i coefs. coefs[i := coefs ! (i - n) - cs ! i]) [n..<4 * n]
       (fold (\<lambda>i coefs. coefs[i := - cs ! i]) [0..<n] (replicate (4 * n) 0))"

text \<open>Coefficient \<open>i\<close> of a buffer read as a polynomial: zero past the end.\<close>

definition coef_at :: "('a::zero) list \<Rightarrow> nat \<Rightarrow> 'a" where
  "coef_at cs i = (if i < length cs then cs ! i else 0)"

text \<open>
  \<open>add(polynomial, blindingValue)\<close>. The degrees of both polynomials are taken once, before
  the loop, and an index up to the degree reads the coefficient (\<open>i <= thisDegree\<close>,
  \<open>i <= polyDegree\<close>). An empty \<open>polynomial\<close> has degree 0, so index 0 reads past its end.
  The optional \<open>blindingValue\<close> is \<open>None\<close> when the argument is absent.
\<close>

definition add_step ::
  "('a::comm_ring_1) Polynomial \<Rightarrow> 'a option \<Rightarrow> nat \<Rightarrow> nat \<Rightarrow> nat \<Rightarrow> 'a Polynomial
     \<Rightarrow> error + 'a Polynomial" where
  "add_step polynomial blindingValue thisDegree polyDegree i this =
     (let a = (if i \<le> thisDegree then coeff this ! i else 0) in
      thenE (if i \<le> polyDegree
             then (if i < length_pol polynomial then Inr (coeff polynomial ! i)
                   else Inl BufferBounds)
             else Inr 0) (\<lambda>b.
      let b = (case blindingValue of None \<Rightarrow> b | Some v \<Rightarrow> b * v)
      in Inr (this\<lparr>coeff := (coeff this)[i := a + b]\<rparr>)))"

definition add ::
  "('a::comm_ring_1) Polynomial \<Rightarrow> 'a option \<Rightarrow> 'a Polynomial \<Rightarrow> error + 'a Polynomial" where
  "add polynomial blindingValue this =
     (if degree polynomial + 1 > length_pol this then Inl AddGreaterSize
      else
        let thisDegree = degree this;
            polyDegree = degree polynomial
        in foldE (add_step polynomial blindingValue thisDegree polyDegree)
             [0..<length_pol this] this)"

text \<open>
  \<open>sub(polynomial, blindingValue)\<close>. The guard compares the lengths. Inside the loop the
  degrees are taken anew at every index, \<open>this.degree()\<close> on the coefficients as they
  stand, and the comparison is strict (\<open>i < this.degree()\<close>, \<open>i < polynomial.degree()\<close>).
  The two polynomials are different objects here.
\<close>

definition sub_step ::
  "('a::comm_ring_1) Polynomial \<Rightarrow> 'a option \<Rightarrow> nat \<Rightarrow> 'a Polynomial \<Rightarrow> 'a Polynomial" where
  "sub_step polynomial blindingValue i this =
     (let a = (if i < degree this then coeff this ! i else 0);
          b = (if i < degree polynomial then coeff polynomial ! i else 0);
          b = (case blindingValue of None \<Rightarrow> b | Some v \<Rightarrow> b * v)
      in this\<lparr>coeff := (coeff this)[i := a - b]\<rparr>)"

definition sub ::
  "('a::comm_ring_1) Polynomial \<Rightarrow> 'a option \<Rightarrow> 'a Polynomial \<Rightarrow> error + 'a Polynomial" where
  "sub polynomial blindingValue this =
     (if length_pol polynomial > length_pol this then Inl AddGreaterSize
      else Inr (fold (sub_step polynomial blindingValue) [0..<length_pol this] this))"

text \<open>
  \<open>mulScalar\<close> multiplies every coefficient; \<open>addScalar\<close> and \<open>subScalar\<close> store
  \<open>coeff[0] + value\<close> and \<open>coeff[0] - value\<close> at offset 0, which an empty buffer cannot
  take.
\<close>

definition mulScalar :: "('a::comm_ring_1) \<Rightarrow> 'a Polynomial \<Rightarrow> 'a Polynomial" where
  "mulScalar v p = p\<lparr>coeff := fold (\<lambda>i c. c[i := c ! i * v]) [0..<length_pol p] (coeff p)\<rparr>"

definition addScalar :: "('a::comm_ring_1) \<Rightarrow> 'a Polynomial \<Rightarrow> error + 'a Polynomial" where
  "addScalar v p =
     (let currentValue = (if 0 = length_pol p then 0 else coeff p ! 0)
      in thenE (set_buf (coeff p) [currentValue + v] 0) (\<lambda>c. Inr (p\<lparr>coeff := c\<rparr>)))"

definition subScalar :: "('a::comm_ring_1) \<Rightarrow> 'a Polynomial \<Rightarrow> error + 'a Polynomial" where
  "subScalar v p =
     (let currentValue = (if 0 = length_pol p then 0 else coeff p ! 0)
      in thenE (set_buf (coeff p) [currentValue - v] 0) (\<lambda>c. Inr (p\<lparr>coeff := c\<rparr>)))"

section \<open>The prover\<close>

text \<open>
  The prover works on a group of buffers, polynomials, challenges and the proof, which its
  nested functions update. Each function below takes what it reads and returns what it
  writes. The field library (\<open>ifft\<close>, \<open>batchInverse\<close>, \<open>w\<close>), the curve library
  (\<open>multiExpAffine\<close>, \<open>toAffine\<close>), the transcript and the classes \<open>Evaluations\<close> and
  \<open>Proof\<close> are not part of the sources at hand: the functions of the two libraries and
  of \<open>Evaluations\<close> are parameters, a challenge is the value the transcript returned, and
  \<open>Proof\<close> is modelled from the specification. \<open>batchToMontgomery\<close> and
  \<open>batchFromMontgomery\<close> change the representation of the elements, not the elements.
\<close>

text \<open>
  \<open>readUInt32(b, o)\<close> at \<open>o = 4 * i\<close>: entry \<open>i\<close> of a buffer of 32-bit numbers; the
  \<open>DataView\<close> raises when the four bytes are not there.
\<close>

definition readUInt32 :: "nat list \<Rightarrow> nat \<Rightarrow> error + nat" where
  "readUInt32 b i = (if i < length b then Inr (b ! i) else Inl BufferBounds)"

text \<open>
  \<open>getWitness(idx)\<close> returns a slice of the witness, a slice of the internal witness, or
  \<open>Fr.zero\<close>. The comparisons are on numbers, so the difference may be negative.
\<close>

definition getWitness :: "('a::comm_ring_1) zkey \<Rightarrow> 'a list \<Rightarrow> 'a list \<Rightarrow> nat \<Rightarrow> 'a list" where
  "getWitness zkey buffWitness buffInternalWitness idx =
     (let diff = int (nVars zkey) - int (nAdditions zkey) in
      if int idx < diff then slice buffWitness idx (idx + 1)
      else if idx < nVars zkey
        then slice buffInternalWitness (nat (int idx - diff)) (nat (int idx - diff) + 1)
      else [0])"

text \<open>
  \<open>buildABEvaluationsBuffer()\<close>. One pass of the loop for row \<open>i\<close>: the witness of
  \<open>aMap[i]\<close> is stored in \<open>A\<close>; for \<open>B\<close> the source computes \<open>b\<close> (the witness of
  \<open>bMap[i]\<close>, negated on an odd row, plus the constant \<open>k\<close> of the row) and then stores
  \<open>getWitness(signalIdB)\<close>. The field operations act on the slices they are given.
\<close>

definition buildAB_step ::
  "('a::comm_ring_1) zkey \<Rightarrow> 'a list \<Rightarrow> 'a list \<Rightarrow> nat list \<Rightarrow> nat list \<Rightarrow> 'a list \<Rightarrow> nat
     \<Rightarrow> 'a list \<times> 'a list \<Rightarrow> error + 'a list \<times> 'a list" where
  "buildAB_step zkey buffWitness buffInternalWitness aMapBuff bMapBuff kBuff i AB =
     (case AB of (A, B) \<Rightarrow>
      thenE (readUInt32 aMapBuff i) (\<lambda>signalIdA.
      thenE (set_buf A (getWitness zkey buffWitness buffInternalWitness signalIdA) i) (\<lambda>A.
      thenE (readUInt32 bMapBuff i) (\<lambda>signalIdB.
      let b = getWitness zkey buffWitness buffInternalWitness signalIdB;
          b = (if i mod 2 \<noteq> 0 then map uminus b else b);
          k = slice kBuff i (i + 1);
          b = map2 (+) b k
      in thenE (set_buf B (getWitness zkey buffWitness buffInternalWitness signalIdB) i) (\<lambda>B.
         Inr (A, B))))))"

definition buildABEvaluationsBuffer ::
  "('a::comm_ring_1) zkey \<Rightarrow> 'a list \<Rightarrow> 'a list \<Rightarrow> nat list \<Rightarrow> nat list \<Rightarrow> 'a list
     \<Rightarrow> error + 'a list \<times> 'a list" where
  "buildABEvaluationsBuffer zkey buffWitness buffInternalWitness aMapBuff bMapBuff kBuff =
     foldE (buildAB_step zkey buffWitness buffInternalWitness aMapBuff bMapBuff kBuff)
       [0..<nConstraints zkey]
       (replicate (domainSize_zkey zkey) 0, replicate (domainSize_zkey zkey) 0)"

text \<open>
  What the claim on the buffers asks of row \<open>i\<close> of \<open>B\<close>: the witness of \<open>bMap[i]\<close>,
  negated on an odd row, plus \<open>kCorrection[i]\<close>.
\<close>

definition B_row_spec :: "('a::comm_ring_1) \<Rightarrow> 'a \<Rightarrow> nat \<Rightarrow> 'a" where
  "B_row_spec witness kCorrection i = (if even i then witness else - witness) + kCorrection"

text \<open>
  \<open>Polynomial.fromBuffer\<close> is the inverse transform of the field library followed by
  \<open>new Polynomial(coefficients, Fr, logger)\<close>.
\<close>

definition fromBuffer :: "('a list \<Rightarrow> 'a list) \<Rightarrow> 'a list \<Rightarrow> 'a object" where
  "fromBuffer ifft buffer = (let coefficients = ifft buffer in new_Polynomial coefficients)"

text \<open>
  The constructor sets the fields \<open>coeff\<close>, \<open>domainSize\<close>, \<open>Fr\<close> and \<open>logger\<close>, and no
  method sets another. The prover reads \<open>polynomial.coef\<close>: a field that no polynomial has.
\<close>

definition coef :: "'a object \<Rightarrow> 'a list option" where
  "coef polynomial = None"

text \<open>
  \<open>multiExponentiation\<close> hands the first \<open>n\<close> points of \<open>PTau\<close> and the buffer
  \<open>polynomial.coef\<close> to the curve library; \<open>n\<close> is \<open>polynomial.coef.byteLength / sFr\<close>.
\<close>

definition multiExponentiation ::
  "('p list \<Rightarrow> 'a list \<Rightarrow> 'j) \<Rightarrow> ('j \<Rightarrow> 'g) \<Rightarrow> 'p list \<Rightarrow> 'a object \<Rightarrow> error + 'g" where
  "multiExponentiation multiExpAffine toAffine PTau polynomial =
     (case coef polynomial of
        None \<Rightarrow> Inl UndefinedProperty
      | Some bm \<Rightarrow>
          let n = length bm;
              PTauN = slice PTau 0 n;
              res = multiExpAffine PTauN bm
          in Inr (toAffine res))"

text \<open>
  A slice of one element handed to a field operation: the element, when it is there.
\<close>

definition read :: "'a list \<Rightarrow> nat \<Rightarrow> error + 'a" where
  "read buf i = (if i < length buf then Inr (buf ! i) else Inl BufferBounds)"

text \<open>
  Round 2 from the comment \<open>2. Compute permutation polynomial Z(X)\<close> on; \<open>beta\<close> and
  \<open>gamma\<close> are the challenges of its first part, \<open>omega\<close> is \<open>Fr.w[zkey.power]\<close>. One pass
  of the first loop, on the buffers \<open>numArr\<close>, \<open>denArr\<close> and the running power \<open>w\<close>:
\<close>

definition round2_step ::
  "('a::comm_ring_1) zkey \<Rightarrow> 'a \<Rightarrow> 'a \<Rightarrow> 'a \<Rightarrow> 'a list \<Rightarrow> 'a list \<Rightarrow> 'a list \<Rightarrow> nat
     \<Rightarrow> 'a list \<times> 'a list \<times> 'a \<Rightarrow> error + 'a list \<times> 'a list \<times> 'a" where
  "round2_step zkey omega beta gamma evaluations_A evaluations_B evaluations_sigma i st =
     (case st of (numArr, denArr, w) \<Rightarrow>
      let n = domainSize_zkey zkey in
      thenE (read evaluations_A i) (\<lambda>a.
      thenE (read evaluations_B i) (\<lambda>b.
      thenE (read evaluations_sigma (i * 4)) (\<lambda>s1.
      thenE (read evaluations_sigma ((n + i) * 4)) (\<lambda>s2.
      let num1 = a + beta * w;
          num1 = num1 + gamma;
          num2 = b + k1 zkey * (beta * w);
          num2 = num2 + gamma;
          num = num1 * num2;
          den1 = a + s1 * beta;
          den1 = den1 + gamma;
          den2 = b + s2 * beta;
          den2 = den2 + gamma;
          den = den1 * den2;
          numArr = numArr[(i + 1) mod n := numArr ! i * num];
          denArr = denArr[(i + 1) mod n := denArr ! i * den];
          w = w * omega
      in Inr (numArr, denArr, w))))))"

text \<open>
  The buffer \<open>buffers.Z\<close>: both arrays start with \<open>Fr.one\<close> at index 0, the first loop
  runs over the domain, \<open>denArr\<close> goes through \<open>Fr.batchInverse\<close> once, and the second
  loop multiplies the two arrays index by index.
\<close>

definition round2_buffer_Z ::
  "('a list \<Rightarrow> 'a list) \<Rightarrow> ('a::comm_ring_1) zkey \<Rightarrow> 'a \<Rightarrow> 'a \<Rightarrow> 'a \<Rightarrow> 'a list \<Rightarrow> 'a list \<Rightarrow> 'a list
     \<Rightarrow> error + 'a list" where
  "round2_buffer_Z batchInverse zkey omega beta gamma evaluations_A evaluations_B evaluations_sigma =
     (let n = domainSize_zkey zkey in
      thenE (set_buf (replicate n 0) [1] 0) (\<lambda>numArr.
      thenE (set_buf (replicate n 0) [1] 0) (\<lambda>denArr.
      thenE (foldE (round2_step zkey omega beta gamma evaluations_A evaluations_B
                      evaluations_sigma) [0..<n] (numArr, denArr, 1)) (\<lambda>st.
      case st of (numArr, denArr, w) \<Rightarrow>
        let denArr = batchInverse denArr
        in Inr (fold (\<lambda>i numArr. numArr[i := numArr ! i * denArr ! i]) [0..<n] numArr)))))"

text \<open>
  The rest of the round: the check of \<open>Z[0]\<close>, the polynomial \<open>fromBuffer\<close> builds and its
  evaluations, the blinding with \<open>b[5]\<close>, \<open>b[6]\<close>, \<open>b[7]\<close>, and the commitment. The array
  \<open>challenges.b\<close> holds the blinding scalars at the indices 1 to 8.
\<close>

definition round2 ::
  "('a list \<Rightarrow> 'a list) \<Rightarrow> ('a list \<Rightarrow> 'a list) \<Rightarrow> ('a object \<Rightarrow> 'e) \<Rightarrow>
   ('p list \<Rightarrow> 'a list \<Rightarrow> 'j) \<Rightarrow> ('j \<Rightarrow> 'g) \<Rightarrow> 'p list \<Rightarrow>
   ('a::comm_ring_1) zkey \<Rightarrow> 'a \<Rightarrow> 'a \<Rightarrow> 'a \<Rightarrow> 'a list \<Rightarrow>
   'a list \<Rightarrow> 'a list \<Rightarrow> 'a list \<Rightarrow> error + ('a, 'e, 'g) round2_result" where
  "round2 batchInverse ifft fromPolynomial multiExpAffine toAffine PTau zkey omega beta gamma b
     evaluations_A evaluations_B evaluations_sigma =
     thenE (round2_buffer_Z batchInverse zkey omega beta gamma evaluations_A evaluations_B
              evaluations_sigma) (\<lambda>numArr.
     if numArr ! 0 \<noteq> 1 then Inl CopyConstraints
     else
       let Z = fromBuffer ifft numArr;
           evalZ = fromPolynomial Z
       in
       thenE (call (\<lambda>p. Inr (blindCoefficients [b ! 5, b ! 6, b ! 7] p)) Z) (\<lambda>Z.
       thenE (multiExponentiation multiExpAffine toAffine PTau Z) (\<lambda>commitment.
       Inr \<lparr>buffers_Z = numArr, polynomials_Z = Z, evaluations_Z = evalZ,
            proof_Z = commitment\<rparr>)))"

text \<open>
  The numerator and the denominator of row \<open>i\<close>, and the sequence the specification
  writes: \<open>Z[0] = 1\<close>, \<open>Z[i + 1] = Z[i] * num_i * den_i^(-1)\<close>.
\<close>

definition round2_num :: "('a::field) zkey \<Rightarrow> 'a \<Rightarrow> 'a \<Rightarrow> 'a \<Rightarrow> 'a list \<Rightarrow> 'a list \<Rightarrow> nat \<Rightarrow> 'a" where
  "round2_num zkey omega beta gamma evaluations_A evaluations_B i =
     (evaluations_A ! i + beta * omega ^ i + gamma) *
     (evaluations_B ! i + k1 zkey * (beta * omega ^ i) + gamma)"

definition round2_den ::
  "('a::field) zkey \<Rightarrow> 'a \<Rightarrow> 'a \<Rightarrow> 'a list \<Rightarrow> 'a list \<Rightarrow> 'a list \<Rightarrow> nat \<Rightarrow> 'a" where
  "round2_den zkey beta gamma evaluations_A evaluations_B evaluations_sigma i =
     (evaluations_A ! i + evaluations_sigma ! (i * 4) * beta + gamma) *
     (evaluations_B ! i + evaluations_sigma ! ((domainSize_zkey zkey + i) * 4) * beta + gamma)"

fun Z_spec :: "(nat \<Rightarrow> 'a::field) \<Rightarrow> (nat \<Rightarrow> 'a) \<Rightarrow> nat \<Rightarrow> 'a" where
  "Z_spec num den 0 = 1"
| "Z_spec num den (Suc i) = Z_spec num den i * num i * inverse (den i)"

text \<open>
  The buffers \<open>numArr\<close> and \<open>denArr\<close> after \<open>k\<close> passes of the first loop of round 2, for
  the factors \<open>f\<close>: index \<open>j\<close> from 1 to \<open>k\<close> holds the product of the first \<open>j\<close>
  factors, and index 0 holds \<open>Fr.one\<close> until the last pass wraps around.
\<close>

definition acc_buf :: "nat \<Rightarrow> (nat \<Rightarrow> 'a::field) \<Rightarrow> nat \<Rightarrow> 'a list" where
  "acc_buf n f k =
     map (\<lambda>j. if j = 0 then (if k = n then prod f {..<n} else 1)
               else if j \<le> k then prod f {..<j} else 0) [0..<n]"





definition getEvaluation :: "string \<Rightarrow> ('a, 'g) Proof \<Rightarrow> error + 'a" where
  "getEvaluation key pr =
     (case map_of (evaluations pr) key of None \<Rightarrow> Inl UndefinedOperand | Some v \<Rightarrow> Inr v)"







text \<open>
  Round 5 from the evaluation of \<open>R\<close> on: the arithmetic of its lines on \<open>W_xi\<close> before the
  division, for a \<open>W_xi\<close> whose \<open>Fr\<close> is the field library (the round as it runs on the
  object that its constructor call builds is \<open>round5\<close> below). The high part of the
  split \<open>T\<close> is multiplied by \<open>xinAdd2\<close>, the product of \<open>xiN\<close> and three factors \<open>xi\<close>; the
  polynomial starts as \<open>domainSize\<close> zeros and receives the two parts of \<open>T\<close>, then
  \<open>R\<close>, \<open>A\<close>, \<open>B\<close> and \<open>S1\<close> scaled by \<open>v[0]\<close> to \<open>v[3]\<close>; five scalars are subtracted. The
  last of them is \<open>Fr.mul(proof.getEvaluation("s1", challenges.v[3]))\<close>: \<open>getEvaluation\<close>
  takes the key, and \<open>Fr.mul\<close> is called with one operand. What the field library returns
  for that is the parameter \<open>mul1\<close>.
\<close>

definition round5_Wxi ::
  "('a \<Rightarrow> 'a) \<Rightarrow> ('a::comm_ring_1) zkey \<Rightarrow> 'a \<Rightarrow> 'a \<Rightarrow> 'a list \<Rightarrow> ('a, 'g) Proof \<Rightarrow>
   'a Polynomial \<Rightarrow> 'a Polynomial \<Rightarrow> 'a Polynomial \<Rightarrow> 'a Polynomial \<Rightarrow> 'a Polynomial \<Rightarrow>
   'a Polynomial \<Rightarrow> 'a Polynomial \<Rightarrow> error + 'a Polynomial" where
  "round5_Wxi mul1 zkey xi xiN v pr splitT0 splitT1 R A B S1 T =
     (let eval_r = evaluate R xi;
          xinAdd2 = xiN * xi * xi * xi;
          splitT1 = mulScalar xinAdd2 splitT1;
          Wxi = \<lparr>coeff = replicate (domainSize_zkey zkey) 0, domainSize = None\<rparr>
      in
      thenE (add splitT0 None Wxi) (\<lambda>Wxi.
      thenE (add splitT1 None Wxi) (\<lambda>Wxi.
      thenE (add R (Some (v ! 0)) Wxi) (\<lambda>Wxi.
      thenE (add A (Some (v ! 1)) Wxi) (\<lambda>Wxi.
      thenE (add B (Some (v ! 2)) Wxi) (\<lambda>Wxi.
      thenE (add S1 (Some (v ! 3)) Wxi) (\<lambda>Wxi.
      let evaluation_t = evaluate T xi in
      thenE (subScalar evaluation_t Wxi) (\<lambda>Wxi.
      thenE (subScalar (eval_r * v ! 0) Wxi) (\<lambda>Wxi.
      thenE (getEvaluation ''a'' pr) (\<lambda>a.
      thenE (subScalar (a * v ! 1) Wxi) (\<lambda>Wxi.
      thenE (getEvaluation ''b'' pr) (\<lambda>b.
      thenE (subScalar (b * v ! 2) Wxi) (\<lambda>Wxi.
      thenE (getEvaluation ''s1'' pr) (\<lambda>s1.
      subScalar (mul1 s1) Wxi))))))))))))))"

text \<open>
  What the claim on \<open>W_xi\<close> gives for coefficient \<open>i\<close> before the division, for a domain
  of \<open>n\<close> rows: the coefficient of
  \<open>T_L + xi^(n + 2) * T_H + v_0 * R + v_1 * A + v_2 * B + v_3 * S1\<close>, less the constant
  \<open>t + v_0 * r + v_1 * a + v_2 * b + v_3 * s1\<close> at \<open>i = 0\<close>.
\<close>

definition Wxi_spec ::
  "nat \<Rightarrow> ('a::comm_ring_1) \<Rightarrow> 'a list \<Rightarrow> 'a list \<Rightarrow> 'a list \<Rightarrow> 'a list \<Rightarrow> 'a list \<Rightarrow> 'a list \<Rightarrow>
   'a list \<Rightarrow> 'a \<Rightarrow> 'a \<Rightarrow> 'a \<Rightarrow> 'a \<Rightarrow> 'a \<Rightarrow> nat \<Rightarrow> 'a" where
  "Wxi_spec n xi v T_L T_H R A B S1 t r a b s1 i =
     coef_at T_L i + xi ^ (n + 2) * coef_at T_H i + v ! 0 * coef_at R i + v ! 1 * coef_at A i
       + v ! 2 * coef_at B i + v ! 3 * coef_at S1 i
       - (if i = 0 then t + v ! 0 * r + v ! 1 * a + v ! 2 * b + v ! 3 * s1 else 0)"





text \<open>
  On BN254 the field library inverts a non-zero element as its power \<open>r - 2\<close>, for the
  order \<open>r\<close> of the field, and \<open>batchInverse\<close> inverts every element of a buffer.
\<close>

definition bn254_batchInverse :: "bn254_Fr list \<Rightarrow> bn254_Fr list" where
  "bn254_batchInverse xs =
     map (\<lambda>x. x ^ 21888242871839275222246405745257275088548364400416034343698204186575808495615)
       xs"

section \<open>Evaluation\<close>

lemma evaluate_loop_foldr:
  "k \<le> length cs \<Longrightarrow>
   evaluate_loop cs x k res = foldr (\<lambda>c r. c + r * x) (take k cs) res"
proof (induction k arbitrary: res)
  case 0
  show ?case by simp
next
  case (Suc k)
  then have "take (Suc k) cs = take k cs @ [cs ! k]"
    by (simp add: take_Suc_conv_app_nth)
  with Suc show ?case by simp
qed

lemma horner_foldr: "horner x cs = foldr (\<lambda>c r. c + r * x) cs 0"
  by (induction cs) simp_all

lemma evaluate_horner: "evaluate p x = horner x (coeff p)"
  by (simp add: evaluate_def length_pol_def evaluate_loop_foldr horner_foldr)

lemma horner_append: "horner x (as @ bs) = horner x as + x ^ length as * horner x bs"
  by (induction as) (simp_all add: algebra_simps)

lemma horner_replicate_zero [simp]: "horner x (replicate n 0) = 0"
  by (induction n) simp_all

lemma horner_map2_diff:
  "length as = length bs \<Longrightarrow>
   horner x (map2 (\<lambda>a b. a - z * b) as bs) = horner x as - z * horner x bs"
proof (induction as bs rule: list_induct2)
  case Nil
  show ?case by simp
next
  case (Cons a as b bs)
  have "horner x (map2 (\<lambda>a b. a - z * b) (a # as) (b # bs)) =
        (a - z * b) + (horner x as - z * horner x bs) * x"
    using Cons.IH by simp
  also have "\<dots> = horner x (a # as) - z * horner x (b # bs)"
    by (simp add: algebra_simps)
  finally show ?case .
qed

lemma horner_times_X_minus: "horner x (times_X_minus z g) = (x - z) * horner x g"
proof -
  have "horner x (times_X_minus z g) = horner x (0 # g) - z * horner x (g @ [0])"
    unfolding times_X_minus_def by (rule horner_map2_diff) simp
  also have "\<dots> = (x - z) * horner x g"
    by (simp add: horner_append algebra_simps)
  finally show ?thesis .
qed

lemma length_times_X_minus [simp]: "length (times_X_minus z g) = Suc (length g)"
  by (simp add: times_X_minus_def)

lemma nth_times_X_minus:
  "i \<le> length g \<Longrightarrow>
   times_X_minus z g ! i =
     (if i = 0 then 0 else g ! (i - 1)) - z * (if i < length g then g ! i else 0)"
  by (cases i) (auto simp: times_X_minus_def nth_append nth_Cons')

section \<open>Division by \<open>X - value\<close>\<close>

lemma length_divByXValue_loop [simp]:
  "length (divByXValue_loop v cs k coefs) = length coefs"
  by (induction k arbitrary: coefs) simp_all

lemma divByXValue_loop_above:
  "k \<le> j \<Longrightarrow> divByXValue_loop v cs k coefs ! j = coefs ! j"
  by (induction k arbitrary: coefs) simp_all

lemma divByXValue_loop_step:
  "j < k \<Longrightarrow> k < length coefs \<Longrightarrow>
   divByXValue_loop v cs k coefs ! j = cs ! Suc j + v * divByXValue_loop v cs k coefs ! Suc j"
proof (induction k arbitrary: coefs)
  case 0
  then show ?case by simp
next
  case (Suc k)
  show ?case
  proof (cases "j = k")
    case True
    with Suc.prems show ?thesis
      by (simp add: divByXValue_loop_above)
  next
    case False
    with Suc.prems have "j < k" by simp
    with Suc.IH [of "coefs[k := cs ! Suc k + v * coefs ! Suc k]"] Suc.prems
    show ?thesis by simp
  qed
qed

lemma divByXValue_buffer:
  "2 \<le> length (coeff p) \<Longrightarrow> divByXValue v p = Inr (p\<lparr>coeff := quotient_buffer v (coeff p)\<rparr>)"
  by (simp add: divByXValue_def quotient_buffer_def length_pol_def Let_def)

lemma length_quotient_buffer [simp]: "length (quotient_buffer v cs) = length cs"
  by (simp add: quotient_buffer_def)

lemma quotient_buffer_top:
  "2 \<le> length cs \<Longrightarrow> quotient_buffer v cs ! (length cs - 1) = 0"
  by (simp add: quotient_buffer_def divByXValue_loop_above nth_list_update)

lemma quotient_buffer_rec:
  assumes "2 \<le> length cs" "Suc j < length cs"
  shows "quotient_buffer v cs ! j = cs ! Suc j + v * quotient_buffer v cs ! Suc j"
proof (cases "j < length cs - 2")
  case True
  then show ?thesis
    unfolding quotient_buffer_def
    by (intro divByXValue_loop_step) (use assms in simp_all)
next
  case False
  with assms have j: "j = length cs - 2" by simp
  with assms have sj: "Suc j = length cs - 1" by simp
  have "quotient_buffer v cs ! Suc j = 0"
    using quotient_buffer_top [OF assms(1)] sj by simp
  moreover have "quotient_buffer v cs ! j = cs ! Suc j"
    using assms j sj by (simp add: quotient_buffer_def divByXValue_loop_above)
  ultimately show ?thesis by simp
qed

lemma coeff_as_times_X_minus:
  fixes v :: "'a::comm_ring_1"
  assumes "2 \<le> length cs" and q_def: "q = butlast (quotient_buffer v cs)"
  shows "cs = (times_X_minus v q)[0 := cs ! 0]"
proof (rule nth_equalityI)
  show "length cs = length ((times_X_minus v q)[0 := cs ! 0])"
    using assms by simp
next
  fix i assume i: "i < length cs"
  have lq: "length q = length cs - 1" by (simp add: q_def)
  show "cs ! i = (times_X_minus v q)[0 := cs ! 0] ! i"
  proof (cases i)
    case 0
    then show ?thesis using assms by simp
  next
    case (Suc j)
    have a: "quotient_buffer v cs ! j = cs ! Suc j + v * quotient_buffer v cs ! Suc j"
      using quotient_buffer_rec [OF assms(1)] i Suc by simp
    have b: "q ! j = quotient_buffer v cs ! j"
      using i Suc by (simp add: q_def nth_butlast)
    have c: "(if Suc j < length q then q ! Suc j else 0) = quotient_buffer v cs ! Suc j"
    proof (cases "Suc j < length q")
      case True
      then show ?thesis by (simp add: q_def nth_butlast)
    next
      case False
      with i Suc lq have "Suc j = length cs - 1" by simp
      with quotient_buffer_top [OF assms(1), of v] False show ?thesis by simp
    qed
    have "times_X_minus v q ! Suc j = q ! j - v * (if Suc j < length q then q ! Suc j else 0)"
      using i Suc lq by (subst nth_times_X_minus) simp_all
    with a b c Suc i show ?thesis by (simp add: algebra_simps)
  qed
qed


lemma horner_list_update_0:
  "cs \<noteq> [] \<Longrightarrow> horner x (cs[0 := c]) = horner x cs - cs ! 0 + c"
  by (cases cs) simp_all

lemma quotient_buffer_times_X_minus:
  assumes "1 \<le> length g"
  shows "quotient_buffer z (times_X_minus z g) = g @ [0]"
proof (rule nth_equalityI)
  show "length (quotient_buffer z (times_X_minus z g)) = length (g @ [0])"
    by simp
next
  let ?cs = "times_X_minus z g"
  have len: "2 \<le> length ?cs" using assms by simp
  have down: "d \<le> length g \<Longrightarrow>
      quotient_buffer z ?cs ! (length g - d) = (g @ [0]) ! (length g - d)" for d
  proof (induction d)
    case 0
    show ?case using quotient_buffer_top [OF len, of z] by simp
  next
    case (Suc d)
    define j where "j = length g - Suc d"
    with Suc.prems have j: "length g - d = Suc j" "j < length g" by simp_all
    have "quotient_buffer z ?cs ! j = ?cs ! Suc j + z * quotient_buffer z ?cs ! Suc j"
      using j by (intro quotient_buffer_rec [OF len]) simp
    also have "quotient_buffer z ?cs ! Suc j = (g @ [0]) ! Suc j"
      using Suc.IH Suc.prems j by simp
    also have "?cs ! Suc j = g ! j - z * (if Suc j < length g then g ! Suc j else 0)"
      using j by (subst nth_times_X_minus) simp_all
    also have "(g @ [0]) ! Suc j = (if Suc j < length g then g ! Suc j else 0)"
      using j by (simp add: nth_append)
    finally have "quotient_buffer z ?cs ! j = (g @ [0]) ! j"
      using j by (simp add: nth_append algebra_simps)
    then show ?case by (simp add: j_def)
  qed
  fix i assume "i < length (quotient_buffer z ?cs)"
  then have "i \<le> length g" by simp
  then have "length g - (length g - i) = i" "length g - i \<le> length g" by simp_all
  with down [of "length g - i"] show "quotient_buffer z ?cs ! i = (g @ [0]) ! i"
    by simp
qed

text \<open>
  C6. For a polynomial \<open>g\<close> with at least one coefficient, \<open>divByXValue(z)\<close> on the
  product \<open>(X - z) * g(X)\<close> leaves exactly the coefficients of \<open>g\<close>, followed by a zero
  in the top position: the buffer keeps the length of the product.
\<close>

theorem divByXValue_exact:
  assumes "1 \<le> length g" and "coeff p = times_X_minus z g"
  shows "divByXValue z p = Inr (p\<lparr>coeff := g @ [0]\<rparr>) \<and>
         length (g @ [0]) = length_pol p \<and>
         (g @ [0]) ! (length_pol p - 1) = 0"
  using assms
  by (simp add: divByXValue_buffer quotient_buffer_times_X_minus length_pol_def nth_append)

theorem divByXValue_exact_witness:
  "1 \<le> length [3, 1 :: bn254_Fr] \<and>
   coeff \<lparr>coeff = [- 15, - 2, 1 :: bn254_Fr], domainSize = Some 4\<rparr> = times_X_minus 5 [3, 1] \<and>
   divByXValue 5 \<lparr>coeff = [- 15, - 2, 1 :: bn254_Fr], domainSize = Some 4\<rparr> =
     Inr \<lparr>coeff = [3, 1, 0], domainSize = Some 4\<rparr>"
proof -
  have g: "1 \<le> length [3, 1 :: bn254_Fr]"
    by simp
  have p: "coeff \<lparr>coeff = [- 15, - 2, 1 :: bn254_Fr], domainSize = Some 4\<rparr> = times_X_minus 5 [3, 1]"
    by (simp add: times_X_minus_def)
  from divByXValue_exact [OF g p] g p show ?thesis
    by simp
qed

text \<open>
  C10. On every polynomial with at least two coefficients \<open>divByXValue(z)\<close> returns
  without an error, whether or not \<open>X - z\<close> divides the polynomial. The new buffer is a
  quotient \<open>q\<close> followed by a zero, and \<open>q\<close> is the quotient of synthetic division: the
  old coefficients are those of \<open>(X - z) * q(X)\<close> plus the remainder \<open>p(z)\<close> in the
  constant term. The remainder is not stored anywhere.
\<close>

theorem divByXValue_total:
  fixes p :: "('a::comm_ring_1) Polynomial"
  assumes "2 \<le> length_pol p"
  shows "\<exists>q. divByXValue z p = Inr (p\<lparr>coeff := q @ [0]\<rparr>) \<and>
             length q + 1 = length_pol p \<and>
             coeff p = (times_X_minus z q)[0 := times_X_minus z q ! 0 + evaluate p z] \<and>
             (\<forall>x. evaluate p x = (x - z) * horner x q + evaluate p z)"
proof -
  let ?cs = "coeff p"
  let ?b = "quotient_buffer z ?cs"
  define q where "q = butlast ?b"
  have len: "2 \<le> length ?cs" using assms by (simp add: length_pol_def)
  have "?b \<noteq> []" using len by (metis length_quotient_buffer list.size(3) not_numeral_le_zero)
  moreover have "last ?b = 0"
    using quotient_buffer_top [OF len, of z] \<open>?b \<noteq> []\<close> by (simp add: last_conv_nth)
  ultimately have b: "?b = q @ [0]"
    unfolding q_def by (metis append_butlast_last_id)
  have cs: "?cs = (times_X_minus z q)[0 := ?cs ! 0]"
    using len q_def by (rule coeff_as_times_X_minus)
  have ev: "evaluate p x = (x - z) * horner x q + (?cs ! 0 - times_X_minus z q ! 0)" for x
  proof -
    have "evaluate p x = horner x ?cs"
      by (rule evaluate_horner)
    also have "\<dots> = horner x ((times_X_minus z q)[0 := ?cs ! 0])"
      by (rule arg_cong [OF cs])
    also have "\<dots> = horner x (times_X_minus z q) - times_X_minus z q ! 0 + ?cs ! 0"
      by (rule horner_list_update_0) (simp add: times_X_minus_def)
    finally show ?thesis by (simp add: horner_times_X_minus)
  qed
  from ev [of z] have d: "?cs ! 0 - times_X_minus z q ! 0 = evaluate p z"
    by simp
  then have r: "?cs ! 0 = times_X_minus z q ! 0 + evaluate p z"
    by (simp add: algebra_simps)
  have 1: "divByXValue z p = Inr (p\<lparr>coeff := q @ [0]\<rparr>)"
    using divByXValue_buffer [OF len, of z] b by simp
  have 2: "length q + 1 = length_pol p"
    using len by (simp add: q_def length_pol_def)
  have 3: "coeff p = (times_X_minus z q)[0 := times_X_minus z q ! 0 + evaluate p z]"
    unfolding r [symmetric] by (rule cs)
  have 4: "\<forall>x. evaluate p x = (x - z) * horner x q + evaluate p z"
    unfolding d [symmetric] using ev by (rule allI)
  show ?thesis
  proof (rule exI [of _ q])
    show "divByXValue z p = Inr (p\<lparr>coeff := q @ [0]\<rparr>) \<and>
          length q + 1 = length_pol p \<and>
          coeff p = (times_X_minus z q)[0 := times_X_minus z q ! 0 + evaluate p z] \<and>
          (\<forall>x. evaluate p x = (x - z) * horner x q + evaluate p z)"
      using 1 2 3 4 by (iprover intro: conjI)
  qed
qed

theorem divByXValue_total_witness:
  "2 \<le> length_pol \<lparr>coeff = [1, 2, 3 :: bn254_Fr], domainSize = Some 4\<rparr> \<and>
   evaluate \<lparr>coeff = [1, 2, 3 :: bn254_Fr], domainSize = Some 4\<rparr> 2 = 17 \<and>
   (\<exists>q. divByXValue 2 \<lparr>coeff = [1, 2, 3 :: bn254_Fr], domainSize = Some 4\<rparr> =
          Inr \<lparr>coeff = q @ [0], domainSize = Some 4\<rparr> \<and>
        [1, 2, 3] = (times_X_minus 2 q)[0 := times_X_minus 2 q ! 0 + 17])"
proof -
  let ?p = "\<lparr>coeff = [1, 2, 3 :: bn254_Fr], domainSize = Some 4\<rparr>"
  have h: "2 \<le> length_pol ?p"
    by (simp add: length_pol_def)
  have e: "evaluate ?p 2 = 17"
    by (simp add: evaluate_horner)
  from divByXValue_total [OF h, of 2] obtain q where
    "divByXValue 2 ?p = Inr (?p\<lparr>coeff := q @ [0]\<rparr>)"
    "coeff ?p = (times_X_minus 2 q)[0 := times_X_minus 2 q ! 0 + evaluate ?p 2]"
    by blast
  with h e show ?thesis
    by auto
qed

section \<open>Blinding\<close>

lemma horner_list_update:
  "i < length cs \<Longrightarrow> horner x (cs[i := c]) = horner x cs + (c - cs ! i) * x ^ i"
proof (induction cs arbitrary: i)
  case Nil
  then show ?case by simp
next
  case (Cons a cs)
  show ?case
  proof (cases i)
    case 0
    then show ?thesis by simp
  next
    case (Suc j)
    with Cons.prems have "j < length cs" by simp
    from Cons.IH [OF this] have "horner x ((a # cs)[Suc j := c]) =
        a + (horner x cs + (c - cs ! j) * x ^ j) * x"
      by simp
    also have "\<dots> = horner x (a # cs) + (c - (a # cs) ! Suc j) * x ^ Suc j"
      by (simp add: algebra_simps)
    finally show ?thesis using Suc by simp
  qed
qed

lemma length_blind_step [simp]: "length (blind_step len bf i b) = length b"
  by (simp add: blind_step_def Let_def)

lemma length_fold_blind_step [simp]:
  "length (fold (blind_step len bf) is b) = length b"
  by (induction "is" arbitrary: b) simp_all

lemma horner_blind_step:
  assumes "len + i < length b"
  shows "horner x (blind_step len bf i b) = horner x b + bf ! i * (x ^ (len + i) - x ^ i)"
proof -
  let ?b1 = "b[len + i := b ! (len + i) + bf ! i]"
  have i: "i < length ?b1" using assms by simp
  have "horner x (blind_step len bf i b) = horner x ?b1 + (?b1 ! i - bf ! i - ?b1 ! i) * x ^ i"
    unfolding blind_step_def Let_def by (rule horner_list_update [OF i])
  also have "horner x ?b1 = horner x b + (b ! (len + i) + bf ! i - b ! (len + i)) * x ^ (len + i)"
    by (rule horner_list_update [OF assms])
  finally show ?thesis by (simp add: algebra_simps)
qed

lemma nth_blind_step:
  assumes "len + i < length b" "j < length b"
  shows "blind_step len bf i b ! j =
           b ! j + (if j = len + i then bf ! i else 0) - (if j = i then bf ! i else 0)"
  using assms by (cases "len = 0") (auto simp: blind_step_def Let_def nth_list_update)

lemma horner_fold_blind_step:
  "len + k \<le> length b \<Longrightarrow> k \<le> length bf \<Longrightarrow>
   horner x (fold (blind_step len bf) [0..<k] b) =
     horner x b + horner x (take k bf) * (x ^ len - 1)"
proof (induction k)
  case 0
  show ?case by simp
next
  case (Suc k)
  have t: "take (Suc k) bf = take k bf @ [bf ! k]"
    using Suc.prems by (simp add: take_Suc_conv_app_nth)
  have "horner x (fold (blind_step len bf) [0..<Suc k] b) =
        horner x (blind_step len bf k (fold (blind_step len bf) [0..<k] b))"
    by simp
  also have "\<dots> = horner x (fold (blind_step len bf) [0..<k] b) +
                   bf ! k * (x ^ (len + k) - x ^ k)"
    using Suc.prems by (intro horner_blind_step) simp
  also have "horner x (fold (blind_step len bf) [0..<k] b) =
             horner x b + horner x (take k bf) * (x ^ len - 1)"
    using Suc.prems by (intro Suc.IH) simp_all
  finally show ?case
    using Suc.prems by (simp add: t horner_append algebra_simps power_add)
qed

lemma nth_fold_blind_step:
  "len + k \<le> length b \<Longrightarrow> j < length b \<Longrightarrow>
   fold (blind_step len bf) [0..<k] b ! j =
     b ! j + (if len \<le> j \<and> j < len + k then bf ! (j - len) else 0)
           - (if j < k then bf ! j else 0)"
proof (induction k)
  case 0
  show ?case by auto
next
  case (Suc k)
  have "fold (blind_step len bf) [0..<Suc k] b ! j =
        blind_step len bf k (fold (blind_step len bf) [0..<k] b) ! j"
    by simp
  also have "\<dots> = fold (blind_step len bf) [0..<k] b ! j
                   + (if j = len + k then bf ! k else 0) - (if j = k then bf ! k else 0)"
    using Suc.prems by (intro nth_blind_step) simp_all
  also have "fold (blind_step len bf) [0..<k] b ! j =
     b ! j + (if len \<le> j \<and> j < len + k then bf ! (j - len) else 0)
           - (if j < k then bf ! j else 0)"
    using Suc.prems by (intro Suc.IH) simp_all
  finally show ?case
    by (auto simp: less_Suc_eq)
qed

text \<open>
  C8. For a polynomial of \<open>n\<close> coefficients, \<open>blindCoefficients\<close> lengthens the buffer
  by the number of factors; coefficient \<open>j\<close> of the result is the old coefficient (zero
  from \<open>n\<close> on) plus the factor \<open>j - n\<close> for \<open>j \<ge> n\<close>, minus the factor \<open>j\<close> for
  \<open>j\<close> below the number of factors. Its value at any point \<open>x\<close> is
  \<open>p(x) + (\<Sum> b_i x^i) * (x^n - 1)\<close>, so it agrees with \<open>p\<close> at every power of an
  \<open>n\<close>-th root of unity.
\<close>

theorem blindCoefficients_blinds:
  fixes p :: "('a::comm_ring_1) Polynomial"
  assumes "length_pol p = n"
  shows "length_pol (blindCoefficients fs p) = n + length fs \<and>
         (\<forall>j < n + length fs.
            coeff (blindCoefficients fs p) ! j =
              (if j < n then coeff p ! j else 0) + (if n \<le> j then fs ! (j - n) else 0)
                - (if j < length fs then fs ! j else 0)) \<and>
         (\<forall>x. evaluate (blindCoefficients fs p) x = evaluate p x + horner x fs * (x ^ n - 1)) \<and>
         (\<forall>w j. w ^ n = 1 \<longrightarrow>
            evaluate (blindCoefficients fs p) (w ^ j) = evaluate p (w ^ j))"
proof -
  let ?b0 = "coeff p @ replicate (length fs) 0"
  have c: "coeff (blindCoefficients fs p) = fold (blind_step n fs) [0..<length fs] ?b0"
    using assms(1) by (simp add: blindCoefficients_def Let_def)
  have l0: "length ?b0 = n + length fs"
    using assms(1) by (simp add: length_pol_def)
  have 1: "length_pol (blindCoefficients fs p) = n + length fs"
    by (simp add: length_pol_def c l0 del: length_append)
  have 2: "coeff (blindCoefficients fs p) ! j =
              (if j < n then coeff p ! j else 0) + (if n \<le> j then fs ! (j - n) else 0)
                - (if j < length fs then fs ! j else 0)" if "j < n + length fs" for j
  proof -
    have "fold (blind_step n fs) [0..<length fs] ?b0 ! j =
          ?b0 ! j + (if n \<le> j \<and> j < n + length fs then fs ! (j - n) else 0)
                  - (if j < length fs then fs ! j else 0)"
      using that l0 by (intro nth_fold_blind_step) simp_all
    moreover have "?b0 ! j = (if j < n then coeff p ! j else 0)"
      using that assms(1) by (simp add: nth_append length_pol_def)
    ultimately show ?thesis using that by (simp add: c)
  qed
  have 3: "evaluate (blindCoefficients fs p) x = evaluate p x + horner x fs * (x ^ n - 1)" for x
  proof -
    have "horner x (fold (blind_step n fs) [0..<length fs] ?b0) =
          horner x ?b0 + horner x (take (length fs) fs) * (x ^ n - 1)"
      using l0 by (intro horner_fold_blind_step) simp_all
    then show ?thesis
      by (simp add: evaluate_horner c horner_append)
  qed
  have 4: "evaluate (blindCoefficients fs p) (w ^ j) = evaluate p (w ^ j)" if "w ^ n = 1" for w j
  proof -
    have "(w ^ j) ^ n = (w ^ n) ^ j"
      by (simp add: power_mult [symmetric] mult.commute)
    with that have "(w ^ j) ^ n = 1" by simp
    with 3 [of "w ^ j"] show ?thesis by simp
  qed
  from 1 2 3 4 show ?thesis by blast
qed

theorem blindCoefficients_blinds_witness:
  "length_pol \<lparr>coeff = [1, 2 :: bn254_Fr], domainSize = Some 2\<rparr> = 2 \<and>
   (- 1 :: bn254_Fr) ^ 2 = 1 \<and>
   coeff (blindCoefficients [3, 4] \<lparr>coeff = [1, 2 :: bn254_Fr], domainSize = Some 2\<rparr>) =
     [- 2, - 2, 3, 4] \<and>
   evaluate (blindCoefficients [3, 4] \<lparr>coeff = [1, 2 :: bn254_Fr], domainSize = Some 2\<rparr>) ((- 1) ^ 1) =
     evaluate \<lparr>coeff = [1, 2 :: bn254_Fr], domainSize = Some 2\<rparr> ((- 1) ^ 1)"
proof -
  let ?p = "\<lparr>coeff = [1, 2 :: bn254_Fr], domainSize = Some 2\<rparr>"
  have n: "length_pol ?p = 2"
    by (simp add: length_pol_def)
  have w: "(- 1 :: bn254_Fr) ^ 2 = 1"
    by simp
  have c: "coeff (blindCoefficients [3, 4] ?p) = [- 2, - 2, 3, 4]"
    by (simp add: blindCoefficients_def blind_step_def length_pol_def Let_def upt_rec)
  from blindCoefficients_blinds [OF n, of "[3, 4]"] w
  have "evaluate (blindCoefficients [3, 4] ?p) ((- 1) ^ 1) = evaluate ?p ((- 1) ^ 1)"
    by blast
  with n w c show ?thesis
    by blast
qed

section \<open>Division by the vanishing polynomial\<close>

lemma divZh_eq:
  "domainSize p = Some n \<Longrightarrow> 4 * n \<le> length_pol p \<Longrightarrow>
   divZh p = Inr \<lparr>coeff = divZh_buffer n (coeff p), domainSize = None\<rparr>"
  by (simp add: divZh_def divZh_buffer_def Let_def)

lemma length_fold_update [simp]:
  "length (fold (\<lambda>i coefs. coefs[i := f i coefs]) is b) = length b"
  by (induction "is" arbitrary: b) simp_all

lemma length_divZh_buffer [simp]: "length (divZh_buffer n cs) = 4 * n"
  by (simp add: divZh_buffer_def)

lemma divZh_first_loop:
  "k \<le> length b \<Longrightarrow> j < length b \<Longrightarrow>
   fold (\<lambda>i coefs. coefs[i := - cs ! i]) [0..<k] b ! j = (if j < k then - cs ! j else b ! j)"
  by (induction k) (auto simp: nth_list_update less_Suc_eq)

lemma divZh_second_loop:
  "n \<le> k \<Longrightarrow> k \<le> length b \<Longrightarrow> j < length b \<Longrightarrow> 0 < n \<Longrightarrow>
   fold (\<lambda>i coefs. coefs[i := coefs ! (i - n) - cs ! i]) [n..<k] b ! j =
     (if n \<le> j \<and> j < k
      then fold (\<lambda>i coefs. coefs[i := coefs ! (i - n) - cs ! i]) [n..<k] b ! (j - n) - cs ! j
      else b ! j)"
proof (induction k arbitrary: j rule: dec_induct)
  case base
  then show ?case by auto
next
  case (step k)
  let ?F = "fold (\<lambda>i coefs. coefs[i := coefs ! (i - n) - cs ! i])"
  have S: "?F [n..<Suc k] b = (?F [n..<k] b)[k := ?F [n..<k] b ! (k - n) - cs ! k]"
    using step.hyps by simp
  have kn: "k - n < k" using step.prems step.hyps by simp
  show ?case
  proof (cases "j = k")
    case True
    with step.prems step.hyps kn show ?thesis
      by (simp add: S nth_list_update)
  next
    case False
    have IH: "?F [n..<k] b ! j =
       (if n \<le> j \<and> j < k then ?F [n..<k] b ! (j - n) - cs ! j else b ! j)"
      using step.prems by (intro step.IH) simp_all
    have "j - n \<noteq> k" if "j < k" using that by simp
    with False IH step.prems show ?thesis
      by (auto simp: S nth_list_update)
  qed
qed


lemma divZh_buffer_low:
  "i < n \<Longrightarrow> divZh_buffer n cs ! i = - cs ! i"
proof -
  assume i: "i < n"
  let ?b1 = "fold (\<lambda>i coefs. coefs[i := - cs ! i]) [0..<n] (replicate (4 * n) 0)"
  have "divZh_buffer n cs ! i = ?b1 ! i"
    unfolding divZh_buffer_def using i
    by (subst divZh_second_loop) simp_all
  also have "\<dots> = - cs ! i"
    using i by (subst divZh_first_loop) simp_all
  finally show ?thesis .
qed

lemma divZh_buffer_high:
  "n \<le> i \<Longrightarrow> i < 4 * n \<Longrightarrow> divZh_buffer n cs ! i = divZh_buffer n cs ! (i - n) - cs ! i"
  unfolding divZh_buffer_def
  by (subst divZh_second_loop) simp_all

lemma length_times_Zh [simp]: "length (times_Zh n h) = n + length h"
  by (simp add: times_Zh_def)

lemma nth_times_Zh:
  "i < n + length h \<Longrightarrow>
   times_Zh n h ! i = (if n \<le> i then h ! (i - n) else 0) - (if i < length h then h ! i else 0)"
  by (simp add: times_Zh_def nth_append)

lemma horner_map2_minus:
  "length as = length bs \<Longrightarrow>
   horner x (map2 (\<lambda>a b. a - b) as bs) = horner x as - horner x bs"
  using horner_map2_diff [of as bs x 1] by simp

lemma horner_times_Zh: "horner x (times_Zh n h) = (x ^ n - 1) * horner x h"
proof -
  have "horner x (times_Zh n h) =
        horner x (replicate n 0 @ h) - horner x (h @ replicate n 0)"
    unfolding times_Zh_def by (rule horner_map2_minus) simp
  then show ?thesis
    by (simp add: horner_append algebra_simps)
qed

lemma divZh_buffer_times_Zh:
  assumes "length h = 3 * n"
  shows "divZh_buffer n (times_Zh n h) = h @ replicate n 0"
proof (rule nth_equalityI)
  show "length (divZh_buffer n (times_Zh n h)) = length (h @ replicate n 0)"
    using assms by simp
next
  fix i assume "i < length (divZh_buffer n (times_Zh n h))"
  then have "i < 4 * n" by simp
  then show "divZh_buffer n (times_Zh n h) ! i = (h @ replicate n 0) ! i"
  proof (induction i rule: less_induct)
    case (less i)
    show ?case
    proof (cases "i < n")
      case True
      with assms show ?thesis
        by (simp add: divZh_buffer_low nth_times_Zh nth_append)
    next
      case False
      then have n: "n \<le> i" "i - n < i" "i - n < 4 * n" "0 < n"
        using less.prems by simp_all
      have "divZh_buffer n (times_Zh n h) ! i =
            divZh_buffer n (times_Zh n h) ! (i - n) - times_Zh n h ! i"
        using n less.prems by (intro divZh_buffer_high) simp_all
      also have "divZh_buffer n (times_Zh n h) ! (i - n) = (h @ replicate n 0) ! (i - n)"
        using n by (intro less.IH) simp_all
      finally have "divZh_buffer n (times_Zh n h) ! i =
            (h @ replicate n 0) ! (i - n) - times_Zh n h ! i" .
      moreover have "i - n < 3 * n"
        using n less.prems by simp
      ultimately show ?thesis
        using n less.prems assms by (simp add: nth_times_Zh nth_append)
    qed
  qed
qed

text \<open>
  C7. When \<open>p\<close> holds the \<open>4n\<close> coefficients of \<open>(X^n - 1) * h(X)\<close>, \<open>divZh\<close> returns a
  polynomial of \<open>4n\<close> coefficients with \<open>q[i] = - c[i]\<close> below \<open>n\<close> and
  \<open>q[i] = q[i - n] - c[i]\<close> from \<open>n\<close> on, and these are the coefficients of \<open>h\<close>
  (followed by \<open>n\<close> zeros).
\<close>

theorem divZh_exact:
  fixes p :: "('a::comm_ring_1) Polynomial"
  assumes "domainSize p = Some n" and "length h = 3 * n" and "coeff p = times_Zh n h"
  shows "\<exists>q. divZh p = Inr q \<and> length_pol q = 4 * n \<and>
             (\<forall>i < n. coeff q ! i = - coeff p ! i) \<and>
             (\<forall>i. n \<le> i \<and> i < 4 * n \<longrightarrow> coeff q ! i = coeff q ! (i - n) - coeff p ! i) \<and>
             coeff q = h @ replicate n 0"
proof -
  let ?q = "\<lparr>coeff = divZh_buffer n (coeff p), domainSize = None\<rparr>"
  have len: "4 * n \<le> length_pol p"
    using assms by (simp add: length_pol_def)
  have 1: "divZh p = Inr ?q"
    using assms(1) len by (rule divZh_eq)
  have 2: "length_pol ?q = 4 * n"
    by (simp add: length_pol_def)
  have 3: "\<forall>i < n. coeff ?q ! i = - coeff p ! i"
    by (simp add: divZh_buffer_low)
  have 4: "\<forall>i. n \<le> i \<and> i < 4 * n \<longrightarrow> coeff ?q ! i = coeff ?q ! (i - n) - coeff p ! i"
    by (simp add: divZh_buffer_high)
  have 5: "coeff ?q = h @ replicate n 0"
    using assms by (simp add: divZh_buffer_times_Zh)
  show ?thesis
    by (rule exI [of _ ?q]) (intro conjI 1 2 3 4 5)
qed

theorem divZh_exact_witness:
  "domainSize \<lparr>coeff = [- 1, - 2, - 2, - 2, - 2, - 2, 5, 6 :: bn254_Fr], domainSize = Some 2\<rparr>
     = Some 2 \<and>
   length [1, 2, 3, 4, 5, 6 :: bn254_Fr] = 3 * 2 \<and>
   coeff \<lparr>coeff = [- 1, - 2, - 2, - 2, - 2, - 2, 5, 6 :: bn254_Fr], domainSize = Some 2\<rparr>
     = times_Zh 2 [1, 2, 3, 4, 5, 6] \<and>
   (\<exists>q. divZh \<lparr>coeff = [- 1, - 2, - 2, - 2, - 2, - 2, 5, 6 :: bn254_Fr], domainSize = Some 2\<rparr>
          = Inr q \<and>
        coeff q = [1, 2, 3, 4, 5, 6, 0, 0])"
proof -
  let ?p = "\<lparr>coeff = [- 1, - 2, - 2, - 2, - 2, - 2, 5, 6 :: bn254_Fr], domainSize = Some 2\<rparr>"
  have a: "domainSize ?p = Some 2" by simp
  have b: "length [1, 2, 3, 4, 5, 6 :: bn254_Fr] = 3 * 2" by simp
  have c: "coeff ?p = times_Zh 2 [1, 2, 3, 4, 5, 6]"
    by (simp add: times_Zh_def numeral_2_eq_2)
  from divZh_exact [OF a b c] obtain q where
    "divZh ?p = Inr q" "coeff q = [1, 2, 3, 4, 5, 6] @ replicate 2 0"
    by blast
  then have "\<exists>q. divZh ?p = Inr q \<and> coeff q = [1, 2, 3, 4, 5, 6, 0, 0]"
    by (auto simp: numeral_2_eq_2)
  with b c show ?thesis by simp
qed

section \<open>Sequencing and buffers\<close>

lemma thenE_Inr [simp]: "thenE (Inr x) f = f x"
  by (simp add: thenE_def)

lemma thenE_Inl [simp]: "thenE (Inl e) f = Inl e"
  by (simp add: thenE_def)

lemma set_buf_whole [simp]: "set_buf (replicate (length xs) 0) xs 0 = Inr xs"
  by (simp add: set_buf_def)

lemma degree_loop_numeral:
  "degree_loop cs (numeral k) =
     (if cs ! numeral k \<noteq> 0 then numeral k else degree_loop cs (pred_numeral k))"
  by (simp add: numeral_eq_Suc)

section \<open>Splitting\<close>

lemma forE_Inl: "i \<in> set is \<Longrightarrow> f i = Inl e \<Longrightarrow> \<exists>e'. forE f is = Inl e'"
proof (induction "is")
  case Nil
  then show ?case by simp
next
  case (Cons j "is")
  show ?case
  proof (cases "f j")
    case (Inl a)
    then show ?thesis by simp
  next
    case (Inr x)
    with Cons have "i \<in> set is" by auto
    from Cons.IH [OF this Cons.prems(2)] obtain e' where "forE f is = Inl e'" ..
    with Inr show ?thesis by simp
  qed
qed

text \<open>The pass that builds the last part never returns it: it ends in \<open>truncate()\<close>.\<close>

lemma split_part_last_raises: "\<exists>e. split_part p (Suc m) chunk blindingFactors m = Inl e"
  by (auto simp: split_part_def call_def new_Polynomial_def thenE_def Let_def split: sum.splits)

text \<open>
  So \<open>split\<close> returns parts only when it is asked for one part, which is the polynomial
  itself.
\<close>

lemma split_raises:
  assumes "2 \<le> numPols"
  shows "\<exists>e. split numPols degPols blindingFactors p = Inl e"
proof -
  define chunk where "chunk = degPols + 1"
  define numRealPols where "numRealPols = (degree p + 1 + chunk - 1) div chunk"
  have "chunk \<le> degree p + 1 + chunk - 1" "0 < chunk"
    by (simp_all add: chunk_def)
  then have "0 < numRealPols"
    unfolding numRealPols_def by (simp add: div_greater_zero_iff)
  with assms obtain m where m: "min numPols numRealPols = Suc m"
    by (cases "min numPols numRealPols") auto
  have "m \<in> set [0..<Suc m]" by simp
  from forE_Inl [OF this] split_part_last_raises [of p m chunk blindingFactors]
  obtain e where "forE (split_part p (Suc m) chunk blindingFactors) [0..<Suc m] = Inl e"
    by blast
  with m assms show ?thesis
    unfolding split_def Let_def chunk_def [symmetric] numRealPols_def [symmetric]
    by (simp del: upt_Suc)
qed

text \<open>
  C9. The claim: the chunks that \<open>split\<close> returns add up to the polynomial that was split.
  The code, asked to split \<open>1 + 2 X + 3 X^2 + 4 X^3 + 5 X^4\<close> in two parts of degree 1
  with the blinding factor 7: the first part is built with the buffer \<open>(1, 2, 7)\<close> by
  \<open>new Polynomial(buffer, this.Fr, this.logger)\<close>, the pass for the last part raises in
  its \<open>truncate()\<close>, and \<open>split\<close> returns no chunks.
\<close>

theorem split_raises_in_truncate:
  "split_part \<lparr>coeff = [1, 2, 3, 4, 5 :: bn254_Fr], domainSize = Some 4\<rparr> 2 2 [7] 0 =
     Inr (Shifted [1, 2, 7]) \<and>
   split_part \<lparr>coeff = [1, 2, 3, 4, 5 :: bn254_Fr], domainSize = Some 4\<rparr> 2 2 [7] 1 =
     Inl NoFieldLibrary \<and>
   split 2 1 [7] \<lparr>coeff = [1, 2, 3, 4, 5 :: bn254_Fr], domainSize = Some 4\<rparr> =
     Inl NoFieldLibrary"
proof -
  let ?p = "\<lparr>coeff = [1, 2, 3, 4, 5 :: bn254_Fr], domainSize = Some 4\<rparr>"
  have d: "degree ?p = 4"
    by (simp add: degree_def length_pol_def degree_loop_numeral)
  have n: "(degree ?p + 1 + (1 + 1) - 1) div (1 + 1) = 3"
    unfolding d one_add_one by simp
  have p0: "split_part ?p 2 2 [7] 0 = Inr (Shifted [1, 2, 7])"
    by (simp add: split_part_def slice_def set_buf_def length_pol_def new_Polynomial_def Let_def)
  have p1: "split_part ?p 2 2 [7] 1 = Inl NoFieldLibrary"
    by (simp add: split_part_def slice_def set_buf_def length_pol_def new_Polynomial_def
        call_def Let_def)
  have u: "[0..<2] = [0, 1]"
    by (simp add: upt_rec)
  have s: "split 2 1 [7] ?p = Inl NoFieldLibrary"
    unfolding split_def Let_def n by (simp add: u p0 p1 del: One_nat_def)
  from p0 p1 s show ?thesis by blast
qed

section \<open>Subtraction\<close>

text \<open>
  C4. The claim: after \<open>p.sub(q)\<close> every coefficient of \<open>p\<close> is the old coefficient minus
  the coefficient of \<open>q\<close>, leading coefficients included. The code at \<open>p = 1 + 2 X\<close> and
  \<open>q = 1\<close>: the index 0 is not below \<open>q.degree() = 0\<close>, so nothing is subtracted from the
  constant term, and the index 1 is not below \<open>p.degree() = 1\<close>, so the leading coefficient
  of \<open>p\<close> is replaced by zero. The result is \<open>1\<close>, where the claim gives \<open>2 X\<close>.
\<close>

theorem sub_skips_leading_coefficients:
  "sub \<lparr>coeff = [1 :: bn254_Fr], domainSize = None\<rparr> None
       \<lparr>coeff = [1, 2 :: bn254_Fr], domainSize = None\<rparr> =
     Inr \<lparr>coeff = [1, 0], domainSize = None\<rparr> \<and>
   [1, 0] \<noteq> [1 - 1, 2 - 0 :: bn254_Fr]"
proof -
  have u: "[0..<2] = [0, Suc 0]"
    by (simp add: upt_rec)
  have d0: "degree \<lparr>coeff = [1 :: bn254_Fr], domainSize = None\<rparr> = 0"
    by (simp add: degree_def length_pol_def)
  have d1: "degree \<lparr>coeff = [1, 2 :: bn254_Fr], domainSize = None\<rparr> = 1"
    by (simp add: degree_def length_pol_def)
  have s0: "sub_step \<lparr>coeff = [1 :: bn254_Fr], domainSize = None\<rparr> None 0
              \<lparr>coeff = [1, 2 :: bn254_Fr], domainSize = None\<rparr> =
            \<lparr>coeff = [1, 2], domainSize = None\<rparr>"
    by (simp add: sub_step_def d0 d1)
  have s1: "sub_step \<lparr>coeff = [1 :: bn254_Fr], domainSize = None\<rparr> None (Suc 0)
              \<lparr>coeff = [1, 2 :: bn254_Fr], domainSize = None\<rparr> =
            \<lparr>coeff = [1, 0], domainSize = None\<rparr>"
    by (simp add: sub_step_def d0 d1)
  show ?thesis
    by (simp add: sub_def length_pol_def u s0 s1)
qed

section \<open>The wire buffers\<close>

text \<open>
  C1. The claim: row \<open>i\<close> of buffer \<open>B\<close> holds the witness of \<open>bMap[i]\<close>, negated on an
  odd row, plus \<open>kCorrection[i]\<close>. The code on a circuit of two rows with witness
  \<open>(0, 5, 7, 9)\<close>, both maps \<open>(2, 3)\<close> and corrections \<open>(10, 20)\<close>: the rows of \<open>B\<close> are
  the witnesses 7 and 9 themselves, where the claim gives \<open>7 + 10\<close> and \<open>- 9 + 20\<close>.
\<close>

theorem buildABEvaluationsBuffer_stores_witness:
  "buildABEvaluationsBuffer
     \<lparr>nVars = 4, nAdditions = 0, nConstraints = 2, nPublic = 2, domainSize_zkey = 4,
      power_zkey = 2, k1 = (2 :: bn254_Fr)\<rparr>
     [0, 5, 7, 9] [] [2, 3] [2, 3] [10, 20] = Inr ([7, 9, 0, 0], [7, 9, 0, 0]) \<and>
   [7, 9, 0, 0] \<noteq> [B_row_spec 7 10 0, B_row_spec 9 20 1, 0, 0 :: bn254_Fr]"
proof -
  let ?z = "\<lparr>nVars = 4, nAdditions = 0, nConstraints = 2, nPublic = 2, domainSize_zkey = 4,
      power_zkey = 2, k1 = (2 :: bn254_Fr)\<rparr>"
  have u: "[0..<2] = [0, Suc 0]"
    by (simp add: upt_rec)
  have r: "replicate 4 (0 :: bn254_Fr) = [0, 0, 0, 0]"
    by (simp add: numeral_eq_Suc)
  have g2: "getWitness ?z [0, 5, 7, 9] [] 2 = [7]"
    by (simp add: getWitness_def slice_def)
  have g3: "getWitness ?z [0, 5, 7, 9] [] 3 = [9]"
    by (simp add: getWitness_def slice_def)
  have s0: "buildAB_step ?z [0, 5, 7, 9] [] [2, 3] [2, 3] [10, 20] 0 ([0, 0, 0, 0], [0, 0, 0, 0]) =
            Inr ([7, 0, 0, 0], [7, 0, 0, 0])"
    by (simp add: buildAB_step_def readUInt32_def set_buf_def g2 Let_def)
  have s1: "buildAB_step ?z [0, 5, 7, 9] [] [2, 3] [2, 3] [10, 20] (Suc 0)
              ([7, 0, 0, 0], [7, 0, 0, 0]) =
            Inr ([7, 9, 0, 0], [7, 9, 0, 0])"
    by (simp add: buildAB_step_def readUInt32_def set_buf_def g3 Let_def)
  have "buildABEvaluationsBuffer ?z [0, 5, 7, 9] [] [2, 3] [2, 3] [10, 20] =
        Inr ([7, 9, 0, 0], [7, 9, 0, 0])"
    by (simp add: buildABEvaluationsBuffer_def u r s0 s1)
  moreover have "[7, 9, 0, 0] \<noteq> [B_row_spec 7 10 0, B_row_spec 9 20 1, 0, 0 :: bn254_Fr]"
    by (simp add: B_row_spec_def)
  ultimately show ?thesis by simp
qed

section \<open>Round 2: the permutation polynomial\<close>

lemma foldE_append: "foldE f (xs @ ys) s = thenE (foldE f xs s) (foldE f ys)"
  by (induction xs arbitrary: s) (simp_all add: thenE_def split: sum.splits)

lemma length_acc_buf [simp]: "length (acc_buf n f k) = n"
  by (simp add: acc_buf_def)

lemma acc_buf_0: "0 < n \<Longrightarrow> acc_buf n f 0 = (replicate n 0)[0 := 1]"
  by (rule nth_equalityI) (auto simp: acc_buf_def nth_list_update)

lemma acc_buf_nth_k: "k < n \<Longrightarrow> acc_buf n f k ! k = prod f {..<k}"
  by (simp add: acc_buf_def)

lemma acc_buf_Suc:
  assumes "k < n"
  shows "(acc_buf n f k)[Suc k mod n := acc_buf n f k ! k * f k] = acc_buf n f (Suc k)"
proof (rule nth_equalityI)
  show "length ((acc_buf n f k)[Suc k mod n := acc_buf n f k ! k * f k]) =
        length (acc_buf n f (Suc k))"
    by simp
next
  fix j assume "j < length ((acc_buf n f k)[Suc k mod n := acc_buf n f k ! k * f k])"
  then have j: "j < n" by simp
  show "(acc_buf n f k)[Suc k mod n := acc_buf n f k ! k * f k] ! j = acc_buf n f (Suc k) ! j"
  proof (cases "Suc k = n")
    case True
    then have m: "Suc k mod n = 0" by simp
    show ?thesis
      using j assms True
      by (cases "j = 0") (auto simp: m nth_list_update acc_buf_def mult.commute)
  next
    case False
    with assms have m: "Suc k mod n = Suc k" by simp
    show ?thesis
      using j assms False
      by (cases "j = Suc k") (auto simp: m nth_list_update acc_buf_def mult.commute)
  qed
qed


lemma round2_step_acc:
  fixes zkey :: "('a::field) zkey"
  assumes "k < n" "n = domainSize_zkey zkey" "n \<le> length evalA" "n \<le> length evalB"
    "length sigma = 8 * n"
    and num_def: "num = round2_num zkey omega beta gamma evalA evalB"
    and den_def: "den = round2_den zkey beta gamma evalA evalB sigma"
  shows "round2_step zkey omega beta gamma evalA evalB sigma k
           (acc_buf n num k, acc_buf n den k, omega ^ k) =
         Inr (acc_buf n num (Suc k), acc_buf n den (Suc k), omega ^ Suc k)"
proof -
  have r: "read evalA k = Inr (evalA ! k)" "read evalB k = Inr (evalB ! k)"
    "read sigma (k * 4) = Inr (sigma ! (k * 4))"
    "read sigma (n * 4 + k * 4) = Inr (sigma ! (n * 4 + k * 4))"
    using assms(1,3,4,5) by (simp_all add: read_def)
  have n: "acc_buf n num k ! k * num k = acc_buf n num k ! k *
        ((evalA ! k + beta * omega ^ k + gamma) * (evalB ! k + k1 zkey * (beta * omega ^ k) + gamma))"
    by (simp add: num_def round2_num_def)
  have d: "acc_buf n den k ! k * den k = acc_buf n den k ! k *
        ((evalA ! k + sigma ! (k * 4) * beta + gamma) *
         (evalB ! k + sigma ! ((n + k) * 4) * beta + gamma))"
    by (simp add: den_def round2_den_def assms(2))
  have "round2_step zkey omega beta gamma evalA evalB sigma k
           (acc_buf n num k, acc_buf n den k, omega ^ k) =
        Inr ((acc_buf n num k)[Suc k mod n := acc_buf n num k ! k * num k],
             (acc_buf n den k)[Suc k mod n := acc_buf n den k ! k * den k],
             omega ^ k * omega)"
    unfolding n d
    by (simp add: round2_step_def Let_def assms(2) [symmetric] r)
  then show ?thesis
    by (simp add: acc_buf_Suc [OF assms(1)])
qed

lemma round2_loop_acc:
  fixes zkey :: "('a::field) zkey"
  assumes "k \<le> n" "n = domainSize_zkey zkey" "n \<le> length evalA" "n \<le> length evalB"
    "length sigma = 8 * n"
    and num_def: "num = round2_num zkey omega beta gamma evalA evalB"
    and den_def: "den = round2_den zkey beta gamma evalA evalB sigma"
  shows "foldE (round2_step zkey omega beta gamma evalA evalB sigma) [0..<k]
           (acc_buf n num 0, acc_buf n den 0, 1) =
         Inr (acc_buf n num k, acc_buf n den k, omega ^ k)"
  using assms(1)
proof (induction k)
  case 0
  show ?case by simp
next
  case (Suc k)
  then have k: "k < n" "k \<le> n" by simp_all
  have "foldE (round2_step zkey omega beta gamma evalA evalB sigma) [0..<Suc k]
           (acc_buf n num 0, acc_buf n den 0, 1) =
        thenE (foldE (round2_step zkey omega beta gamma evalA evalB sigma) [0..<k]
           (acc_buf n num 0, acc_buf n den 0, 1))
          (foldE (round2_step zkey omega beta gamma evalA evalB sigma) [k])"
    by (simp add: foldE_append)
  also have "\<dots> = round2_step zkey omega beta gamma evalA evalB sigma k
           (acc_buf n num k, acc_buf n den k, omega ^ k)"
    using Suc.IH [OF k(2)] by (simp add: thenE_def split: sum.splits)
  also have "\<dots> = Inr (acc_buf n num (Suc k), acc_buf n den (Suc k), omega ^ Suc k)"
    by (rule round2_step_acc [OF k(1) assms(2-5) num_def den_def])
  finally show ?case .
qed

lemma fold_mul_nth:
  "k \<le> length N \<Longrightarrow> j < length N \<Longrightarrow>
   fold (\<lambda>i numArr. numArr[i := numArr ! i * d ! i]) [0..<k] N ! j =
     (if j < k then N ! j * d ! j else N ! j)"
  by (induction k) (auto simp: nth_list_update less_Suc_eq)

lemma length_fold_mul [simp]:
  "length (fold (\<lambda>i numArr. numArr[i := numArr ! i * d ! i]) is N) = length N"
  by (induction "is" arbitrary: N) simp_all

lemma Z_spec_prod:
  "Z_spec num den k = prod num {..<k} * inverse (prod den {..<k})"
  by (induction k) (simp_all add: ac_simps)

lemma acc_buf_full_nth:
  "j < n \<Longrightarrow> acc_buf n f n ! j = prod f {..<(if j = 0 then n else j)}"
  by (simp add: acc_buf_def)

lemma acc_buf_nonzero:
  fixes f :: "nat \<Rightarrow> 'a::field"
  assumes "\<forall>i<n. f i \<noteq> 0"
  shows "0 \<notin> set (acc_buf n f n)"
proof
  assume "0 \<in> set (acc_buf n f n)"
  then obtain j where j: "j < n" "acc_buf n f n ! j = 0"
    by (auto simp: in_set_conv_nth)
  then have "prod f {..<(if j = 0 then n else j)} = 0"
    by (simp add: acc_buf_full_nth)
  then obtain i where "i < (if j = 0 then n else j)" "f i = 0"
    by auto
  with j assms show False by (auto split: if_splits)
qed


lemma round2_buffer_Z_eq:
  fixes zkey :: "('a::field) zkey"
  assumes n: "n = domainSize_zkey zkey" "0 < n"
    and len: "n \<le> length evalA" "n \<le> length evalB" "length sigma = 8 * n"
    and num_def: "num = round2_num zkey omega beta gamma evalA evalB"
    and den_def: "den = round2_den zkey beta gamma evalA evalB sigma"
    and dens: "\<forall>i<n. den i \<noteq> 0"
    and lib: "\<forall>xs. 0 \<notin> set xs \<longrightarrow> batchInverse xs = map inverse xs"
  shows "\<exists>Z. round2_buffer_Z batchInverse zkey omega beta gamma evalA evalB sigma = Inr Z \<and>
             length Z = n \<and> (\<forall>i<n. Z ! (Suc i mod n) = Z_spec num den (Suc i))"
proof -
  let ?N = "acc_buf n num n" and ?D = "acc_buf n den n"
  let ?Z = "fold (\<lambda>i numArr. numArr[i := numArr ! i * map inverse ?D ! i]) [0..<n] ?N"
  have s: "set_buf (replicate n (0::'a)) [1] 0 = Inr (acc_buf n f 0)" for f :: "nat \<Rightarrow> 'a"
    using n(2) acc_buf_0 [OF n(2), of f]
    by (cases n) (simp_all add: set_buf_def)
  have loop: "foldE (round2_step zkey omega beta gamma evalA evalB sigma) [0..<n]
           (acc_buf n num 0, acc_buf n den 0, 1) = Inr (?N, ?D, omega ^ n)"
    by (rule round2_loop_acc [OF le_refl n(1) len num_def den_def])
  have inv: "batchInverse ?D = map inverse ?D"
    using lib acc_buf_nonzero [OF dens] by blast
  have e: "acc_buf n den 0 = acc_buf n num 0"
    using n(2) by (simp add: acc_buf_0)
  have Z: "round2_buffer_Z batchInverse zkey omega beta gamma evalA evalB sigma = Inr ?Z"
    unfolding round2_buffer_Z_def Let_def n(1) [symmetric]
    using loop inv by (simp add: s [of num] e del: replicate.simps)
  have nth: "?Z ! (Suc i mod n) = Z_spec num den (Suc i)" if "i < n" for i
  proof -
    let ?j = "Suc i mod n"
    have j: "?j < n" using n(2) by simp
    have m: "(if ?j = 0 then n else ?j) = Suc i"
      using that by (cases "Suc i = n") simp_all
    have "?Z ! ?j = ?N ! ?j * map inverse ?D ! ?j"
      using j by (subst fold_mul_nth) simp_all
    also have "\<dots> = prod num {..<Suc i} * inverse (prod den {..<Suc i})"
      using j by (simp add: acc_buf_full_nth m del: prod.lessThan_Suc)
    finally show ?thesis by (simp only: Z_spec_prod)
  qed
  have "length ?Z = n" by simp
  with Z nth show ?thesis by blast
qed


text \<open>
  On a domain of \<open>n > 0\<close> rows with no zero denominator, and a field library whose
  \<open>batchInverse\<close> inverts every element of a buffer without zeros, the round has two
  ends: the copy-constraint error when the product that the last pass stores back at
  index 0 differs from 1, and otherwise the error of \<open>blindCoefficients\<close> on the object
  that \<open>fromBuffer\<close> built.
\<close>

lemma round2_outcome:
  fixes zkey :: "('a::field) zkey"
  assumes n: "n = domainSize_zkey zkey" "0 < n"
    and len: "n \<le> length evalA" "n \<le> length evalB" "length sigma = 8 * n"
    and dens: "\<forall>i<n. round2_den zkey beta gamma evalA evalB sigma i \<noteq> 0"
    and lib: "\<forall>xs. 0 \<notin> set xs \<longrightarrow> batchInverse xs = map inverse xs"
  shows "round2 batchInverse ifft fromPolynomial multiExpAffine toAffine PTau zkey omega beta
           gamma b evalA evalB sigma =
         Inl (if Z_spec (round2_num zkey omega beta gamma evalA evalB)
                   (round2_den zkey beta gamma evalA evalB sigma) n \<noteq> 1
              then CopyConstraints else NoFieldLibrary)"
proof -
  define num where "num = round2_num zkey omega beta gamma evalA evalB"
  define den where "den = round2_den zkey beta gamma evalA evalB sigma"
  from dens have dens': "\<forall>i<n. den i \<noteq> 0" by (simp add: den_def)
  from round2_buffer_Z_eq [OF n len num_def den_def dens' lib]
  obtain Z where Z: "round2_buffer_Z batchInverse zkey omega beta gamma evalA evalB sigma = Inr Z"
    "length Z = n" "\<forall>i<n. Z ! (Suc i mod n) = Z_spec num den (Suc i)"
    by blast
  obtain m where m: "n = Suc m" using n(2) by (cases n) simp_all
  have "m < n" using m by simp
  with Z(3) have "Z ! (Suc m mod n) = Z_spec num den (Suc m)"
    by blast
  moreover have "Suc m mod n = 0" using m by simp
  ultimately have Z0: "Z ! 0 = Z_spec num den n"
    by (simp only: m)
  show ?thesis
    unfolding num_def [symmetric] den_def [symmetric]
    by (simp add: round2_def Z(1) Z0 fromBuffer_def new_Polynomial_def call_def Let_def)
qed

text \<open>Whatever the buffers hold, the round does not return.\<close>

lemma round2_never_returns:
  "round2 batchInverse ifft fromPolynomial multiExpAffine toAffine PTau zkey omega beta gamma b
     evalA evalB sigma \<noteq> Inr out"
  by (auto simp: round2_def fromBuffer_def new_Polynomial_def call_def thenE_def Let_def
      split: sum.splits)

text \<open>
  C2. The claim: when the product that round 2 accumulates comes back to 1, the round
  completes and commits \<open>[Z]_1\<close>. The code on a domain of two rows of BN254 whose
  permutation is the identity, with \<open>A = (0, 2)\<close>, \<open>B = (-1, 3)\<close>, \<open>k1 = 2\<close>,
  \<open>Fr.w[1] = -1\<close> and the challenges \<open>beta = 1\<close>, \<open>gamma = 0\<close>, so that every numerator and
  every denominator is 1: the buffer \<open>Z\<close> is \<open>(1, 1)\<close>, the check of \<open>Z[0]\<close> passes, and
  the round raises in \<open>polynomials.Z.blindCoefficients\<close>, whatever the inverse transform,
  the evaluations and the curve library compute.
\<close>

theorem round2_raises_after_copy_check:
  "round2_buffer_Z bn254_batchInverse
     \<lparr>nVars = 4, nAdditions = 0, nConstraints = 2, nPublic = 2, domainSize_zkey = 2,
      power_zkey = 1, k1 = (2 :: bn254_Fr)\<rparr>
     (- 1) 1 0 [0, 2] [- 1, 3] [1, 0, 0, 0, - 1, 0, 0, 0, 2, 0, 0, 0, - 2, 0, 0, 0] =
     Inr [1, 1] \<and>
   round2 bn254_batchInverse ifft fromPolynomial multiExpAffine toAffine PTau
     \<lparr>nVars = 4, nAdditions = 0, nConstraints = 2, nPublic = 2, domainSize_zkey = 2,
      power_zkey = 1, k1 = (2 :: bn254_Fr)\<rparr>
     (- 1) 1 0 b [0, 2] [- 1, 3] [1, 0, 0, 0, - 1, 0, 0, 0, 2, 0, 0, 0, - 2, 0, 0, 0] =
     Inl NoFieldLibrary"
proof -
  let ?zkey = "\<lparr>nVars = 4, nAdditions = 0, nConstraints = 2, nPublic = 2, domainSize_zkey = 2,
      power_zkey = 1, k1 = (2 :: bn254_Fr)\<rparr>"
  have u: "[0..<2] = [0, Suc 0]"
    by (simp add: upt_rec)
  have s0: "round2_step ?zkey (- 1) 1 0 [0, 2] [- 1, 3]
              [1, 0, 0, 0, - 1, 0, 0, 0, 2, 0, 0, 0, - 2, 0, 0, 0] 0 ([1, 0], [1, 0], 1) =
            Inr ([1, 1], [1, 1], - 1)"
    by (simp add: round2_step_def read_def Let_def)
  have s1: "round2_step ?zkey (- 1) 1 0 [0, 2] [- 1, 3]
              [1, 0, 0, 0, - 1, 0, 0, 0, 2, 0, 0, 0, - 2, 0, 0, 0] (Suc 0) ([1, 1], [1, 1], - 1) =
            Inr ([1, 1], [1, 1], 1)"
    by (simp add: round2_step_def read_def Let_def)
  have r: "replicate 2 (0 :: bn254_Fr) = [0, 0]"
    by (simp add: numeral_2_eq_2)
  have Z: "round2_buffer_Z bn254_batchInverse ?zkey (- 1) 1 0 [0, 2] [- 1, 3]
             [1, 0, 0, 0, - 1, 0, 0, 0, 2, 0, 0, 0, - 2, 0, 0, 0] = Inr [1, 1]"
    unfolding round2_buffer_Z_def Let_def
    by (simp add: r u set_buf_def s0 s1 bn254_batchInverse_def del: One_nat_def)
  have "round2 bn254_batchInverse ifft fromPolynomial multiExpAffine toAffine PTau ?zkey
          (- 1) 1 0 b [0, 2] [- 1, 3] [1, 0, 0, 0, - 1, 0, 0, 0, 2, 0, 0, 0, - 2, 0, 0, 0] =
        Inl NoFieldLibrary"
    unfolding round2_def Z
    by (simp add: fromBuffer_def new_Polynomial_def call_def Let_def)
  with Z show ?thesis by (rule conjI)
qed

section \<open>Rounds 4 and 5 on a circuit of two rows\<close>

lemmas run_add = add_def add_step_def degree_def length_pol_def degree_loop_numeral Let_def

lemma upt_0_2: "[0..<2] = [0, Suc 0]"
  by (simp add: upt_rec)

text \<open>The polynomials of a circuit of two rows, at the challenge 2.\<close>

lemma run_round5_Wxi:
  "round5_Wxi mul1
     \<lparr>nVars = 4, nAdditions = 0, nConstraints = 2, nPublic = 2, domainSize_zkey = 2,
      power_zkey = 1, k1 = (2 :: bn254_Fr)\<rparr>
     2 4 [2, 4, 8, 16]
     \<lparr>polynomials = ps,
      evaluations = [(''a'', 1), (''b'', 2), (''s1'', 3), (''t'', 117), (''aw'', 1), (''bw'', 2),
                     (''zw'', 1)]\<rparr>
     \<lparr>coeff = [5, 0, 0, 0], domainSize = None\<rparr>
     \<lparr>coeff = [0, 7], domainSize = None\<rparr>
     \<lparr>coeff = [1, 1, 0, 0, 0], domainSize = None\<rparr>
     \<lparr>coeff = [1, 0, 0, 0], domainSize = None\<rparr>
     \<lparr>coeff = [2, 0, 0, 0], domainSize = None\<rparr>
     \<lparr>coeff = [3, 0], domainSize = None\<rparr>
     \<lparr>coeff = [5, 0, 0, 0, 7], domainSize = None\<rparr> =
     Inr \<lparr>coeff = [- 68 - mul1 3, 226], domainSize = None\<rparr>"
proof -
  let ?pr = "\<lparr>polynomials = ps,
      evaluations = [(''a'', 1 :: bn254_Fr), (''b'', 2), (''s1'', 3), (''t'', 117), (''aw'', 1),
                     (''bw'', 2), (''zw'', 1)]\<rparr>"
  have x: "(4 :: bn254_Fr) * 2 * 2 * 2 = 32" by simp
  have r2: "replicate 2 (0 :: bn254_Fr) = [0, 0]"
    by (simp add: numeral_2_eq_2)
  have m1: "mulScalar 32 \<lparr>coeff = [0, 7 :: bn254_Fr], domainSize = None\<rparr> =
           \<lparr>coeff = [0, 224], domainSize = None\<rparr>"
    by (simp add: mulScalar_def length_pol_def upt_0_2)
  have a1: "add \<lparr>coeff = [5, 0, 0, 0 :: bn254_Fr], domainSize = None\<rparr> None
             \<lparr>coeff = [0, 0], domainSize = None\<rparr> =
           Inr \<lparr>coeff = [5, 0], domainSize = None\<rparr>"
    by (simp add: run_add upt_0_2)
  have a2: "add \<lparr>coeff = [0, 224 :: bn254_Fr], domainSize = None\<rparr> None
             \<lparr>coeff = [5, 0], domainSize = None\<rparr> =
           Inr \<lparr>coeff = [5, 224], domainSize = None\<rparr>"
    by (simp add: run_add upt_0_2)
  have a3: "add \<lparr>coeff = [1, 1, 0, 0, 0 :: bn254_Fr], domainSize = None\<rparr> (Some 2)
             \<lparr>coeff = [5, 224], domainSize = None\<rparr> =
           Inr \<lparr>coeff = [7, 226], domainSize = None\<rparr>"
    by (simp add: run_add upt_0_2)
  have a4: "add \<lparr>coeff = [1, 0, 0, 0 :: bn254_Fr], domainSize = None\<rparr> (Some 4)
             \<lparr>coeff = [7, 226], domainSize = None\<rparr> =
           Inr \<lparr>coeff = [11, 226], domainSize = None\<rparr>"
    by (simp add: run_add upt_0_2)
  have a5: "add \<lparr>coeff = [2, 0, 0, 0 :: bn254_Fr], domainSize = None\<rparr> (Some 8)
             \<lparr>coeff = [11, 226], domainSize = None\<rparr> =
           Inr \<lparr>coeff = [27, 226], domainSize = None\<rparr>"
    by (simp add: run_add upt_0_2)
  have a6: "add \<lparr>coeff = [3, 0 :: bn254_Fr], domainSize = None\<rparr> (Some 16)
             \<lparr>coeff = [27, 226], domainSize = None\<rparr> =
           Inr \<lparr>coeff = [75, 226], domainSize = None\<rparr>"
    by (simp add: run_add upt_0_2)
  have e: "evaluate \<lparr>coeff = [5, 0, 0, 0, 7 :: bn254_Fr], domainSize = None\<rparr> 2 = 117"
    "evaluate \<lparr>coeff = [1, 1, 0, 0, 0 :: bn254_Fr], domainSize = None\<rparr> 2 = 3"
    by (simp_all add: evaluate_horner)
  have g: "getEvaluation ''a'' ?pr = Inr 1" "getEvaluation ''b'' ?pr = Inr 2"
    "getEvaluation ''s1'' ?pr = Inr 3"
    by (simp_all add: getEvaluation_def)
  have s: "subScalar c \<lparr>coeff = [d, 226 :: bn254_Fr], domainSize = None\<rparr> =
           Inr \<lparr>coeff = [d - c, 226], domainSize = None\<rparr>" for c d
    by (simp add: subScalar_def set_buf_def length_pol_def)
  show ?thesis
    unfolding round5_Wxi_def Let_def x e g
    by (simp add: r2 m1 a1 a2 a3 a4 a5 a6 s)
qed


section \<open>Round 5: the opening polynomial\<close>

text \<open>
  C3. The claim: before the division, \<open>W_xi\<close> is
  \<open>T_L + xi^(n + 2) * T_H + v_0 * R + v_1 * A + v_2 * B + v_3 * S1\<close> less the constant
  \<open>t + v_0 * r + v_1 * a + v_2 * b + v_3 * s1\<close>. The code on a domain of \<open>n = 2\<close> rows at
  \<open>xi = 2\<close>, with \<open>T_H = 7 X\<close> and \<open>R = 1 + X\<close>: the high part is multiplied by
  \<open>xiN * xi * xi * xi = 2^5\<close>, so the coefficient of \<open>X\<close> is \<open>7 * 32 + 2 = 226\<close> where the
  claim gives \<open>7 * 2^4 + 2 = 114\<close>; and the last scalar subtracted is what \<open>Fr.mul\<close>
  returns for the single operand \<open>s1 = 3\<close>, whatever \<open>v_3\<close> is.
\<close>

theorem round5_Wxi_scales_by_three_factors:
  "round5_Wxi mul1
     \<lparr>nVars = 4, nAdditions = 0, nConstraints = 2, nPublic = 2, domainSize_zkey = 2,
      power_zkey = 1, k1 = (2 :: bn254_Fr)\<rparr>
     2 4 [2, 4, 8, 16]
     \<lparr>polynomials = [],
      evaluations = [(''a'', 1), (''b'', 2), (''s1'', 3), (''t'', 117), (''aw'', 1), (''bw'', 2),
                     (''zw'', 1)]\<rparr>
     \<lparr>coeff = [5, 0, 0, 0], domainSize = None\<rparr>
     \<lparr>coeff = [0, 7], domainSize = None\<rparr>
     \<lparr>coeff = [1, 1, 0, 0, 0], domainSize = None\<rparr>
     \<lparr>coeff = [1, 0, 0, 0], domainSize = None\<rparr>
     \<lparr>coeff = [2, 0, 0, 0], domainSize = None\<rparr>
     \<lparr>coeff = [3, 0], domainSize = None\<rparr>
     \<lparr>coeff = [5, 0, 0, 0, 7], domainSize = None\<rparr> =
     Inr \<lparr>coeff = [- 68 - mul1 3, 226], domainSize = None\<rparr> \<and>
   Wxi_spec 2 2 [2, 4, 8, 16] [5, 0, 0, 0] [0, 7] [1, 1, 0, 0, 0] [1, 0, 0, 0] [2, 0, 0, 0] [3, 0]
     117 3 1 2 3 1 = (114 :: bn254_Fr) \<and>
   (226 :: bn254_Fr) \<noteq> 114"
proof -
  have "Wxi_spec 2 2 [2, 4, 8, 16] [5, 0, 0, 0] [0, 7] [1, 1, 0, 0, 0] [1, 0, 0, 0]
     [2, 0, 0, 0] [3, 0] 117 3 1 2 3 1 = (114 :: bn254_Fr)"
    by (simp add: Wxi_spec_def coef_at_def)
  moreover have "(226 :: bn254_Fr) \<noteq> 114"
    by simp
  ultimately show ?thesis
    using run_round5_Wxi [of mul1 "[]"] by blast
qed

section \<open>Round 5 as it runs\<close>



end
